theory Spec2Isabelle
  imports Main "HOL-Library.Char_ord" "HOL-Library.List_Lexorder" "HOL-Library.Product_Lexorder"
begin

section \<open>Values, errors and judgements\<close>

text \<open>
  A \<open>Variable\<close> of \<open>y0.dsl\<close> is an immutable identifier of a graph node; it is ordered
  and printed by its name. The functions of \<open>conditional_independencies.py\<close> check with
  \<open>isinstance(x, Variable)\<close>, so the arguments a caller may pass are modelled as a
  \<open>pyobj\<close>: a Variable or something else (a plain string, an integer).
\<close>

datatype variable = Variable (name: string)

datatype pyobj = Var variable | Str string | Num int

fun isinstance_Variable :: "pyobj \<Rightarrow> bool" where
  "isinstance_Variable (Var v) = True"
| "isinstance_Variable (Str s) = False"
| "isinstance_Variable (Num n) = False"

fun the_Variable :: "pyobj \<Rightarrow> variable" where
  "the_Variable (Var v) = v"
| "the_Variable (Str s) = Variable s"
| "the_Variable (Num n) = Variable []"

text \<open>Variables are ordered by their names (the order that \<open>sorted\<close> uses).\<close>

instantiation variable :: linorder
begin

definition less_eq_variable :: "variable \<Rightarrow> variable \<Rightarrow> bool" where
  "less_eq_variable u v = (name u \<le> name v)"

definition less_variable :: "variable \<Rightarrow> variable \<Rightarrow> bool" where
  "less_variable u v = (name u < name v)"

instance
proof
  fix x y z :: variable
  show "(x < y) = (x \<le> y \<and> \<not> y \<le> x)"
    by (auto simp: less_eq_variable_def less_variable_def)
  show "x \<le> x"
    by (simp add: less_eq_variable_def)
  show "x \<le> y \<Longrightarrow> y \<le> z \<Longrightarrow> x \<le> z"
    by (simp add: less_eq_variable_def)
  show "x \<le> y \<Longrightarrow> y \<le> x \<Longrightarrow> x = y"
    by (cases x, cases y) (simp add: less_eq_variable_def)
  show "x \<le> y \<or> y \<le> x"
    by (auto simp: less_eq_variable_def)
qed

end

text \<open>
  The exceptions that the code raises or lets through: \<open>NoAnankeError\<close> and
  \<open>TypeError\<close> are raised by the module itself, \<open>KeyError\<close> comes from ananke when a
  vertex name is not in the graph, \<open>NodeNotFound\<close> and \<open>NetworkXUnfeasible\<close> from
  networkx, \<open>ValueError\<close> from \<open>list.index\<close> and \<open>min\<close>, \<open>AttributeError\<close> from a
  method call on an object that has no such method.
\<close>

datatype error =
  NoAnankeError | TypeError | KeyError | NodeNotFound | ValueError | NetworkXUnfeasible
  | AttributeError

text \<open>
  Modelled from the spec: \<open>DSeparationJudgement\<close> of \<open>y0.struct\<close> is not among the
  sources. It is an immutable value with the fields \<open>separated\<close>, \<open>left\<close>, \<open>right\<close>
  and \<open>conditions\<close>; \<open>create\<close> stores left and right in canonical order (smaller name
  first) and the conditions as the sorted tuple of the distinct condition variables, so
  that two judgements compare equal iff the flag, the pair and the condition set agree.
\<close>

record DSeparationJudgement =
  separated :: bool
  left :: variable
  right :: variable
  conditions :: "variable list"

definition create :: "variable \<Rightarrow> variable \<Rightarrow> variable list \<Rightarrow> bool \<Rightarrow> DSeparationJudgement" where
  "create l r conds sep =
     \<lparr>separated = sep,
      left = (if name r < name l then r else l),
      right = (if name r < name l then l else r),
      conditions = sort_key name (remdups conds)\<rparr>"

section \<open>Graphs\<close>

text \<open>
  Modelled from the spec: \<open>NxMixedGraph\<close> of \<open>y0.graph\<close> is not among the sources. It
  is a set of nodes with directed and bidirected (\<open>undirected\<close>) edges between them; the
  endpoints of every edge are nodes. \<open>nodes\<close> lists the nodes in the order in which the
  program iterates over them (Python leaves the iteration order of a set open; the list
  order stands for it).
\<close>

record NxMixedGraph =
  node_list :: "variable list"
  directed :: "(variable \<times> variable) list"
  undirected :: "(variable \<times> variable) list"

definition nodes :: "NxMixedGraph \<Rightarrow> variable list" where
  "nodes g = remdups (node_list g @ concat (map (\<lambda>(u, v). [u, v]) (directed g @ undirected g)))"

text \<open>
  The graph of ananke (\<open>ADMG\<close>, a subclass of \<open>SG\<close>): vertex names with directed,
  bidirected and undirected edges. Every edge of an ananke graph joins two of its
  vertices (its constructor and \<open>add_udedge\<close> look both endpoints up).
\<close>

record ADMG =
  vertices :: "string list"
  di_edges :: "(string \<times> string) list"
  bi_edges :: "(string \<times> string) list"
  ud_edges :: "(string \<times> string) list"

text \<open>The graph argument of the public functions: the y0 wrapper or an ananke graph.\<close>

datatype graph_arg = Wrapper NxMixedGraph | Ananke ADMG

text \<open>
  Modelled from the spec: \<open>NxMixedGraph.to_admg\<close> (not among the sources) converts the
  wrapper to the ananke representation over the names of the nodes.
\<close>

definition to_admg :: "NxMixedGraph \<Rightarrow> ADMG" where
  "to_admg g =
     \<lparr>vertices = map name (nodes g),
      di_edges = map (\<lambda>(u, v). (name u, name v)) (directed g),
      bi_edges = map (\<lambda>(u, v). (name u, name v)) (undirected g),
      ud_edges = []\<rparr>"

subsection \<open>Closure by breadth\<close>

text \<open>
  The graph searches of ananke (\<open>ancestors\<close>) and networkx (\<open>has_path\<close>) visit what
  can be reached along edges. \<open>reach E n S\<close> extends the visited list \<open>S\<close> by the
  successors of its members, \<open>n\<close> times; with \<open>n\<close> the number of edges nothing more can
  be added (lemma \<open>set_reach_rtrancl\<close>).
\<close>

definition successors :: "('a \<times> 'a) list \<Rightarrow> 'a list \<Rightarrow> 'a list" where
  "successors E S = map snd (filter (\<lambda>e. fst e \<in> set S) E)"

definition expand :: "('a \<times> 'a) list \<Rightarrow> 'a list \<Rightarrow> 'a list" where
  "expand E S = remdups (S @ successors E S)"

definition reach :: "('a \<times> 'a) list \<Rightarrow> nat \<Rightarrow> 'a list \<Rightarrow> 'a list" where
  "reach E n S = ((expand E) ^^ n) S"

subsection \<open>ananke: parents, ancestors, subgraph, add_udedge\<close>

definition parents :: "ADMG \<Rightarrow> string list \<Rightarrow> string list" where
  "parents g vs = remdups (map fst (filter (\<lambda>e. snd e \<in> set vs) (di_edges g)))"

text \<open>
  \<open>ancestors\<close> follows the directed edges backwards from the given vertices, which are
  their own ancestors; a name that is not a vertex of the graph is a \<open>KeyError\<close>.
\<close>

definition ancestors :: "ADMG \<Rightarrow> string list \<Rightarrow> error + string list" where
  "ancestors g vs =
     (if \<not> set vs \<subseteq> set (vertices g) then Inl KeyError
      else Inr (reach (map prod.swap (di_edges g)) (length (di_edges g)) (remdups vs)))"

definition within :: "'a list \<Rightarrow> ('a \<times> 'a) \<Rightarrow> bool" where
  "within keep e = (fst e \<in> set keep \<and> snd e \<in> set keep)"

definition subgraph :: "ADMG \<Rightarrow> string list \<Rightarrow> ADMG" where
  "subgraph g keep =
     \<lparr>vertices = filter (\<lambda>v. v \<in> set keep) (vertices g),
      di_edges = filter (within keep) (di_edges g),
      bi_edges = filter (within keep) (bi_edges g),
      ud_edges = filter (within keep) (ud_edges g)\<rparr>"

definition add_udedge :: "ADMG \<Rightarrow> string \<Rightarrow> string \<Rightarrow> ADMG" where
  "add_udedge g u v = g\<lparr>ud_edges := List.insert (u, v) (ud_edges g)\<rparr>"

subsection \<open>itertools.combinations\<close>

fun combinations :: "'a list \<Rightarrow> nat \<Rightarrow> 'a list list" where
  "combinations xs 0 = [[]]"
| "combinations [] (Suc r) = []"
| "combinations (x # xs) (Suc r) = map ((#) x) (combinations xs r) @ combinations xs (Suc r)"

text \<open>The combinations of two, as the tuples that \<open>for a, b in combinations(xs, 2)\<close> unpacks.\<close>

definition pairs :: "'a list \<Rightarrow> ('a \<times> 'a) list" where
  "pairs xs = map (\<lambda>c. (c ! 0, c ! 1)) (combinations xs 2)"

subsection \<open>get_moral_links and disorient\<close>

text \<open>
  \<open>get_moral_links\<close>: the parent sets of all vertices, and every pair of two parents of
  one vertex. The guard of the comprehension reads \<open>len(parents) > 1\<close>, the number of
  parent sets (one per vertex), as the source has it.
\<close>

definition get_moral_links :: "ADMG \<Rightarrow> (string \<times> string) list" where
  "get_moral_links g =
     (let ps = map (\<lambda>v. parents g [v]) (vertices g)
      in concat (map pairs (filter (\<lambda>ns. length ps > 1) ps)))"

text \<open>The undirected graph of networkx: nodes and edges; adding an edge adds its endpoints.\<close>

record Graph =
  g_nodes :: "string list"
  g_edges :: "(string \<times> string) list"

definition disorient :: "ADMG \<Rightarrow> Graph" where
  "disorient g =
     (let es = di_edges g @ ud_edges g @ bi_edges g
      in \<lparr>g_nodes = remdups (vertices g @ concat (map (\<lambda>(u, v). [u, v]) es)),
          g_edges = es\<rparr>)"

definition nx_subgraph :: "Graph \<Rightarrow> string list \<Rightarrow> Graph" where
  "nx_subgraph G keep =
     \<lparr>g_nodes = filter (\<lambda>v. v \<in> set keep) (g_nodes G),
      g_edges = filter (within keep) (g_edges G)\<rparr>"

text \<open>
  \<open>networkx.has_path\<close>: \<open>NodeNotFound\<close> when an endpoint is not a node of the graph,
  otherwise whether the target is reached from the source along edges read in both
  directions.
\<close>

definition has_path :: "Graph \<Rightarrow> string \<Rightarrow> string \<Rightarrow> error + bool" where
  "has_path G s t =
     (if s \<notin> set (g_nodes G) \<or> t \<notin> set (g_nodes G) then Inl NodeNotFound
      else Inr (t \<in> set (reach (g_edges G @ map prod.swap (g_edges G))
                               (2 * length (g_edges G)) [s])))"

section \<open>are_d_separated\<close>

text \<open>Lines 163 to 185: the test itself, once the arguments have passed the checks.\<close>

definition separation :: "NxMixedGraph \<Rightarrow> variable \<Rightarrow> variable \<Rightarrow> variable list
    \<Rightarrow> error + DSeparationJudgement" where
  "separation graph a b conds =
     (let condition_names = map name conds;
          named = [name a, name b] @ condition_names;
          admg = to_admg graph
      in case ancestors admg named of
           Inl e \<Rightarrow> Inl e
         | Inr keep \<Rightarrow>
             (let admg1 = subgraph admg keep;
                  admg2 = fold (\<lambda>(u, v) g. add_udedge g u v) (get_moral_links admg1) admg1;
                  evidence_graph = disorient admg2;
                  keep2 = filter (\<lambda>n. n \<notin> set condition_names) (g_nodes evidence_graph);
                  evidence_graph2 = nx_subgraph evidence_graph keep2
              in case has_path evidence_graph2 (name a) (name b) of
                   Inl e \<Rightarrow> Inl e
                 | Inr p \<Rightarrow> Inr (create a b conds (\<not> p))))"

text \<open>
  Lines 152 to 161: the guard against an ananke graph, the default of \<open>conditions\<close>
  and the three type checks, in the order of the source.
\<close>

definition are_d_separated :: "graph_arg \<Rightarrow> pyobj \<Rightarrow> pyobj \<Rightarrow> pyobj list option
    \<Rightarrow> error + DSeparationJudgement" where
  "are_d_separated graph a b conditions_arg =
     (case graph of
        Ananke g \<Rightarrow> Inl NoAnankeError
      | Wrapper g \<Rightarrow>
          (let conds = (case conditions_arg of None \<Rightarrow> [] | Some cs \<Rightarrow> cs)
           in if \<not> isinstance_Variable a then Inl TypeError
              else if \<not> isinstance_Variable b then Inl TypeError
              else if \<not> list_all isinstance_Variable conds then Inl TypeError
              else separation g (the_Variable a) (the_Variable b) (map the_Variable conds)))"


text \<open>
  The graph in which the path is looked for, as a function of the ancestors kept and the
  names conditioned on (the part of \<open>separation\<close> between the two calls that may raise).
\<close>

definition evidence :: "NxMixedGraph \<Rightarrow> string list \<Rightarrow> string list \<Rightarrow> Graph" where
  "evidence graph keep condition_names =
     (let admg1 = subgraph (to_admg graph) keep;
          admg2 = fold (\<lambda>(u, v) g. add_udedge g u v) (get_moral_links admg1) admg1;
          evidence_graph = disorient admg2;
          keep2 = filter (\<lambda>n. n \<notin> set condition_names) (g_nodes evidence_graph)
      in nx_subgraph evidence_graph keep2)"

subsection \<open>The same function over an object store\<close>

text \<open>
  Python passes graphs by reference, and ananke's \<open>add_udedge\<close> changes its graph in
  place. To say what a call leaves untouched, the function is modelled a second time
  with the objects in a store: a reference is an index into the list of objects,
  \<open>graph.to_admg()\<close>, \<open>admg.subgraph(keep)\<close>, \<open>copy.deepcopy\<close>, \<open>disorient\<close> and
  the networkx \<open>subgraph\<close> each make a new object, and \<open>add_udedge\<close> overwrites the
  object it is called on. The function returns the store it leaves behind.
\<close>

datatype obj = NxMixedGraphObj NxMixedGraph | ADMGObj ADMG | GraphObj Graph

type_synonym store = "obj list"

definition lookup :: "store \<Rightarrow> nat \<Rightarrow> obj option" where
  "lookup h r = (if r < length h then Some (h ! r) else None)"

definition alloc :: "store \<Rightarrow> obj \<Rightarrow> nat \<times> store" where
  "alloc h ob = (length h, h @ [ob])"

definition empty_admg :: ADMG where
  "empty_admg = \<lparr>vertices = [], di_edges = [], bi_edges = [], ud_edges = []\<rparr>"

definition empty_graph :: Graph where
  "empty_graph = \<lparr>g_nodes = [], g_edges = []\<rparr>"

definition admg_at :: "store \<Rightarrow> nat \<Rightarrow> ADMG" where
  "admg_at h r = (case lookup h r of Some (ADMGObj g) \<Rightarrow> g | _ \<Rightarrow> empty_admg)"

definition graph_at :: "store \<Rightarrow> nat \<Rightarrow> Graph" where
  "graph_at h r = (case lookup h r of Some (GraphObj g) \<Rightarrow> g | _ \<Rightarrow> empty_graph)"

definition add_udedge_at :: "nat \<Rightarrow> string \<times> string \<Rightarrow> store \<Rightarrow> store" where
  "add_udedge_at r e h = h[r := ADMGObj (add_udedge (admg_at h r) (fst e) (snd e))]"

definition separation_st :: "store \<Rightarrow> NxMixedGraph \<Rightarrow> variable \<Rightarrow> variable \<Rightarrow> variable list
    \<Rightarrow> (error + DSeparationJudgement) \<times> store" where
  "separation_st h graph a b conds =
     (let condition_names = map name conds;
          named = [name a, name b] @ condition_names;
          (admg, h1) = alloc h (ADMGObj (to_admg graph))
      in case ancestors (admg_at h1 admg) named of
           Inl e \<Rightarrow> (Inl e, h1)
         | Inr keep \<Rightarrow>
             (let (sub, h2) = alloc h1 (ADMGObj (subgraph (admg_at h1 admg) keep));
                  (admg1, h3) = alloc h2 (ADMGObj (admg_at h2 sub));
                  h4 = fold (add_udedge_at admg1) (get_moral_links (admg_at h3 admg1)) h3;
                  (evidence_graph, h5) = alloc h4 (GraphObj (disorient (admg_at h4 admg1)));
                  keep2 = filter (\<lambda>n. n \<notin> set condition_names)
                            (g_nodes (graph_at h5 evidence_graph));
                  (evidence_graph2, h6) =
                     alloc h5 (GraphObj (nx_subgraph (graph_at h5 evidence_graph) keep2))
              in case has_path (graph_at h6 evidence_graph2) (name a) (name b) of
                   Inl e \<Rightarrow> (Inl e, h6)
                 | Inr p \<Rightarrow> (Inr (create a b conds (\<not> p)), h6)))"

definition are_d_separated_st :: "store \<Rightarrow> nat \<Rightarrow> pyobj \<Rightarrow> pyobj \<Rightarrow> pyobj list option
    \<Rightarrow> (error + DSeparationJudgement) \<times> store" where
  "are_d_separated_st h graph a b conditions_arg =
     (case lookup h graph of
        Some (ADMGObj g) \<Rightarrow> (Inl NoAnankeError, h)
      | other \<Rightarrow>
          (let conds = (case conditions_arg of None \<Rightarrow> [] | Some cs \<Rightarrow> cs)
           in if \<not> isinstance_Variable a then (Inl TypeError, h)
              else if \<not> isinstance_Variable b then (Inl TypeError, h)
              else if \<not> list_all isinstance_Variable conds then (Inl TypeError, h)
              else (case other of
                      Some (NxMixedGraphObj g) \<Rightarrow>
                        separation_st h g (the_Variable a) (the_Variable b) (map the_Variable conds)
                    | _ \<Rightarrow> (Inl AttributeError, h))))"

section \<open>d_separations\<close>

text \<open>
  Modelled from the spec: \<open>powerset\<close> of \<open>y0.util.combinatorics\<close> is not among the
  sources. It lists the subsets of its argument in non-decreasing size, up to size
  \<open>stop\<close> when that is given: the combinations of size 0, then of size 1, and so on.
\<close>

definition powerset :: "'a list \<Rightarrow> int option \<Rightarrow> 'a list list" where
  "powerset s stop =
     (let n = (case stop of None \<Rightarrow> int (length s) | Some k \<Rightarrow> k)
      in concat (map (combinations s) [0..<nat (n + 1)]))"

text \<open>The sizes that \<open>powerset\<close> goes through are those below \<open>size_limit\<close>.\<close>

definition size_limit :: "'a list \<Rightarrow> int option \<Rightarrow> nat" where
  "size_limit s stop = nat ((case stop of None \<Rightarrow> int (length s) | Some k \<Rightarrow> k) + 1)"

text \<open>
  A generator is modelled by what it has done when it is exhausted or has raised: the
  calls it made to \<open>are_d_separated\<close>, the judgements it yielded, and the exception,
  if any, that ended it.
\<close>

record run =
  tested :: "(variable \<times> variable \<times> variable list) list"
  yielded :: "DSeparationJudgement list"
  raised :: "error option"

text \<open>The inner loop (lines 208 to 213) over the condition sets of one pair.\<close>

fun search :: "NxMixedGraph \<Rightarrow> bool \<Rightarrow> variable \<Rightarrow> variable \<Rightarrow> variable list list \<Rightarrow> run" where
  "search graph return_all a b [] = \<lparr>tested = [], yielded = [], raised = None\<rparr>"
| "search graph return_all a b (conds # rest) =
     (case are_d_separated (Wrapper graph) (Var a) (Var b) (Some (map Var conds)) of
        Inl e \<Rightarrow> \<lparr>tested = [(a, b, conds)], yielded = [], raised = Some e\<rparr>
      | Inr judgement \<Rightarrow>
          if separated judgement then
            (if \<not> return_all then \<lparr>tested = [(a, b, conds)], yielded = [judgement], raised = None\<rparr>
             else (let r = search graph return_all a b rest
                   in r\<lparr>tested := (a, b, conds) # tested r, yielded := judgement # yielded r\<rparr>))
          else (let r = search graph return_all a b rest
                in r\<lparr>tested := (a, b, conds) # tested r\<rparr>))"

text \<open>\<open>vertices - {a, b}\<close>, in the order of the vertices.\<close>

definition others :: "variable list \<Rightarrow> variable \<Rightarrow> variable \<Rightarrow> variable list" where
  "others vs a b = filter (\<lambda>v. v \<noteq> a \<and> v \<noteq> b) vs"

text \<open>The outer loop (line 207) over the pairs of vertices.\<close>

fun pair_loop :: "NxMixedGraph \<Rightarrow> int option \<Rightarrow> bool \<Rightarrow> variable list
    \<Rightarrow> (variable \<times> variable) list \<Rightarrow> run" where
  "pair_loop graph max_conditions return_all vs [] = \<lparr>tested = [], yielded = [], raised = None\<rparr>"
| "pair_loop graph max_conditions return_all vs ((a, b) # ps) =
     (let r = search graph return_all a b (powerset (others vs a b) max_conditions)
      in case raised r of
           Some e \<Rightarrow> r
         | None \<Rightarrow>
             (let r2 = pair_loop graph max_conditions return_all vs ps
              in \<lparr>tested = tested r @ tested r2, yielded = yielded r @ yielded r2,
                  raised = raised r2\<rparr>))"

definition d_separations :: "graph_arg \<Rightarrow> int option \<Rightarrow> bool \<Rightarrow> run" where
  "d_separations graph max_conditions return_all =
     (case graph of
        Ananke g \<Rightarrow> \<lparr>tested = [], yielded = [], raised = Some NoAnankeError\<rparr>
      | Wrapper g \<Rightarrow>
          (let vs = nodes g
           in pair_loop g max_conditions return_all vs (pairs vs)))"

text \<open>A condition set for which the test returns a judgement with \<open>separated = True\<close>.\<close>

definition separating :: "NxMixedGraph \<Rightarrow> variable \<Rightarrow> variable \<Rightarrow> variable list \<Rightarrow> bool" where
  "separating g a b cs = (separation g a b cs = Inr (create a b cs True))"

text \<open>What the search for one pair yields when it stops at the first hit.\<close>

definition first_hit :: "NxMixedGraph \<Rightarrow> int option \<Rightarrow> variable \<times> variable \<Rightarrow> DSeparationJudgement list" where
  "first_hit g mc p =
     (case List.find (separating g (fst p) (snd p)) (powerset (others (nodes g) (fst p) (snd p)) mc) of
        None \<Rightarrow> []
      | Some cs \<Rightarrow> [create (fst p) (snd p) cs True])"

section \<open>minimal and its policies\<close>

definition judgement_grouper :: "DSeparationJudgement \<Rightarrow> variable \<times> variable" where
  "judgement_grouper judgement = (left judgement, right judgement)"

fun join :: "string \<Rightarrow> string list \<Rightarrow> string" where
  "join sep [] = []"
| "join sep [x] = x"
| "join sep (x # y # ys) = x @ sep @ join sep (y # ys)"

definition len_lex :: "DSeparationJudgement \<Rightarrow> nat \<times> string" where
  "len_lex judgement =
     (length (conditions judgement), join '','' (map name (conditions judgement)))"

text \<open>\<open>itertools.groupby\<close>: the runs of neighbours with the same key.\<close>

function groupby :: "('a \<Rightarrow> 'k) \<Rightarrow> 'a list \<Rightarrow> ('k \<times> 'a list) list" where
  "groupby key [] = []"
| "groupby key (x # xs) =
     (key x, x # takeWhile (\<lambda>y. key y = key x) xs)
       # groupby key (dropWhile (\<lambda>y. key y = key x) xs)"
  by pat_completeness auto
termination
  by (relation "measure (\<lambda>(key, xs). length xs)") (auto simp: length_dropWhile_le less_Suc_eq_le)

text \<open>\<open>min(vs, key=policy)\<close>: the first element with the least key; none for no elements.\<close>

fun min_from :: "('a \<Rightarrow> 'k::linorder) \<Rightarrow> 'a \<Rightarrow> 'a list \<Rightarrow> 'a" where
  "min_from key m [] = m"
| "min_from key m (x # xs) = min_from key (if key x < key m then x else m) xs"

definition py_min :: "('a \<Rightarrow> 'k::linorder) \<Rightarrow> 'a list \<Rightarrow> error + 'a" where
  "py_min key vs = (case vs of [] \<Rightarrow> Inl ValueError | x # xs \<Rightarrow> Inr (min_from key x xs))"

text \<open>What \<open>py_min\<close> returns on a list with an element.\<close>

definition pick :: "('a \<Rightarrow> 'k::linorder) \<Rightarrow> 'a list \<Rightarrow> 'a" where
  "pick key vs = min_from key (hd vs) (tl vs)"

fun collect :: "(error + 'a) list \<Rightarrow> error + 'a list" where
  "collect [] = Inr []"
| "collect (Inl e # rs) = Inl e"
| "collect (Inr x # rs) = (case collect rs of Inl e \<Rightarrow> Inl e | Inr xs \<Rightarrow> Inr (x # xs))"

text \<open>\<open>minimal\<close> with a policy given (lines 69 and 70).\<close>

definition minimal :: "DSeparationJudgement list \<Rightarrow> (DSeparationJudgement \<Rightarrow> 'k::linorder)
    \<Rightarrow> error + DSeparationJudgement set" where
  "minimal judgements policy =
     (let sorted_judgements = sort_key judgement_grouper judgements
      in case collect (map (\<lambda>(k, vs). py_min policy vs)
                          (groupby judgement_grouper sorted_judgements)) of
           Inl e \<Rightarrow> Inl e
         | Inr chosen \<Rightarrow> Inr (set chosen))"

text \<open>\<open>minimal\<close> with \<open>policy=None\<close> (lines 67 and 68).\<close>

definition minimal_default :: "DSeparationJudgement list \<Rightarrow> error + DSeparationJudgement set" where
  "minimal_default judgements = minimal judgements len_lex"

subsection \<open>The topological policy\<close>

text \<open>
  Modelled from the spec: \<open>NxMixedGraph.topological_sort\<close> is not among the sources.
  It gives a topological order of the nodes along the directed edges, which exists only
  when these have no cycle. The model takes, round by round, the remaining nodes without
  a remaining predecessor; when nodes remain and none can be taken, it fails as
  \<open>networkx.topological_sort\<close> does, with \<open>NetworkXUnfeasible\<close>.
\<close>

definition ready_nodes :: "('a \<times> 'a) list \<Rightarrow> 'a list \<Rightarrow> 'a list" where
  "ready_nodes E remaining =
     filter (\<lambda>v. \<forall>e \<in> set E. snd e = v \<longrightarrow> fst e \<notin> set remaining) remaining"

function kahn :: "('a \<times> 'a) list \<Rightarrow> 'a list \<Rightarrow> 'a list \<Rightarrow> error + 'a list" where
  "kahn E remaining acc =
     (let ready = ready_nodes E remaining
      in if remaining = [] then Inr acc
         else if ready = [] then Inl NetworkXUnfeasible
         else kahn E (filter (\<lambda>v. v \<notin> set ready) remaining) (acc @ ready))"
  by pat_completeness auto
termination
proof (relation "measure (\<lambda>(E, remaining, acc). length remaining)")
  show "wf (measure (\<lambda>(E, remaining, acc). length remaining))"
    by simp
next
  fix E :: "('a \<times> 'a) list" and remaining acc ready :: "'a list"
  assume r: "ready = ready_nodes E remaining"
    and "remaining \<noteq> []" and n: "ready \<noteq> []"
  from n obtain x where x: "x \<in> set ready"
    by (cases ready) auto
  with r have "x \<in> set remaining"
    by (auto simp: ready_nodes_def)
  with x have "length (filter (\<lambda>v. v \<notin> set ready) remaining) < length remaining"
    by (intro length_filter_less) auto
  then show "((E, filter (\<lambda>v. v \<notin> set ready) remaining, acc @ ready), (E, remaining, acc))
      \<in> measure (\<lambda>(E, remaining, acc). length remaining)"
    by simp
qed

definition topological_sort :: "NxMixedGraph \<Rightarrow> error + variable list" where
  "topological_sort g = kahn (directed g) (nodes g) []"

text \<open>\<open>list.index\<close>: the first position of a value, \<open>ValueError\<close> when it is absent.\<close>

fun index :: "'a list \<Rightarrow> 'a \<Rightarrow> error + nat" where
  "index [] v = Inl ValueError"
| "index (x # xs) v =
     (if x = v then Inr 0 else (case index xs v of Inl e \<Rightarrow> Inl e | Inr i \<Rightarrow> Inr (Suc i)))"

definition topological_policy :: "DSeparationJudgement \<Rightarrow> variable list \<Rightarrow> error + nat \<times> nat" where
  "topological_policy judgement order =
     (case collect (map (index order) (conditions judgement)) of
        Inl e \<Rightarrow> Inl e
      | Inr is \<Rightarrow> Inr (length (conditions judgement), sum_list is))"

definition get_topological_policy :: "graph_arg
    \<Rightarrow> error + (DSeparationJudgement \<Rightarrow> error + nat \<times> nat)" where
  "get_topological_policy graph =
     (case graph of
        Ananke g \<Rightarrow> Inl NoAnankeError
      | Wrapper g \<Rightarrow>
          (case topological_sort g of
             Inl e \<Rightarrow> Inl e
           | Inr order \<Rightarrow> Inr (\<lambda>judgement. topological_policy judgement order)))"

section \<open>Example graphs\<close>

definition vA :: variable where "vA = Variable ''A''"
definition vB :: variable where "vB = Variable ''B''"
definition vC :: variable where "vC = Variable ''C''"

text \<open>
  The collider a \<rightarrow> c \<leftarrow> b: three nodes, and no other edge. Then the chain
  A \<rightarrow> C \<rightarrow> B and the cycle A \<rightarrow> B \<rightarrow> A.
\<close>

definition collider_of :: "variable \<Rightarrow> variable \<Rightarrow> variable \<Rightarrow> NxMixedGraph" where
  "collider_of a b c = \<lparr>node_list = [a, b, c], directed = [(a, c), (b, c)], undirected = []\<rparr>"

definition collider :: NxMixedGraph where
  "collider = collider_of vA vB vC"

definition chain :: NxMixedGraph where
  "chain = \<lparr>node_list = [vA, vB, vC], directed = [(vA, vC), (vC, vB)], undirected = []\<rparr>"


text \<open>Three judgements, two of them about the same pair.\<close>

definition three_judgements :: "DSeparationJudgement list" where
  "three_judgements = [create vA vB [vC] True, create vA vB [] True, create vA vC [vB] True]"

text \<open>A judgement with a condition that is not a node of the example graphs.\<close>

definition foreign_judgement :: DSeparationJudgement where
  "foreign_judgement = \<lparr>separated = True, left = vA, right = vB, conditions = [Variable ''Z'']\<rparr>"

text \<open>A variable that is not a node of the example graphs.\<close>

definition vZ :: variable where "vZ = Variable ''Z''"

section \<open>Reachability\<close>

lemma set_successors: "set (successors E S) = set E `` set S"
  by (force simp: successors_def Image_def)

lemma set_expand: "set (expand E S) = set S \<union> set E `` set S"
  by (simp add: expand_def set_successors)

lemma reach_0: "reach E 0 S = S"
  by (simp add: reach_def)

lemma reach_Suc: "reach E (Suc n) S = expand E (reach E n S)"
  by (simp add: reach_def)

lemma reach_start: "set S \<subseteq> set (reach E n S)"
  by (induction n) (auto simp: reach_0 reach_Suc set_expand)

lemma reach_sound: "set (reach E n S) \<subseteq> (set E)\<^sup>* `` set S"
proof (induction n)
  case 0
  then show ?case by (auto simp: reach_0)
next
  case (Suc n)
  then show ?case
    by (auto simp: reach_Suc set_expand intro: rtrancl_into_rtrancl)
qed

lemma reach_relpow:
  "(x, y) \<in> (set E) ^^ i \<Longrightarrow> x \<in> set S \<Longrightarrow> i \<le> n \<Longrightarrow> y \<in> set (reach E n S)"
proof (induction i arbitrary: y n)
  case 0
  then show ?case using reach_start [of S E n] by auto
next
  case (Suc i)
  from Suc.prems(1) obtain z where z: "(x, z) \<in> (set E) ^^ i" "(z, y) \<in> set E"
    by auto
  from Suc.prems(3) obtain m where m: "n = Suc m" "i \<le> m"
    by (cases n) auto
  from Suc.IH [OF z(1) Suc.prems(2) m(2)] have "z \<in> set (reach E m S)" .
  with z(2) show ?case
    by (auto simp: m(1) reach_Suc set_expand)
qed

lemma set_reach_rtrancl:
  assumes "length E \<le> n"
  shows "set (reach E n S) = (set E)\<^sup>* `` set S"
proof
  show "set (reach E n S) \<subseteq> (set E)\<^sup>* `` set S" by (rule reach_sound)
next
  have c: "card (set E) \<le> n"
    using assms card_length [of E] by linarith
  show "(set E)\<^sup>* `` set S \<subseteq> set (reach E n S)"
  proof
    fix y assume "y \<in> (set E)\<^sup>* `` set S"
    then obtain x where x: "x \<in> set S" "(x, y) \<in> (set E)\<^sup>*" by auto
    from x(2) obtain i where i: "i \<le> card (set E)" "(x, y) \<in> (set E) ^^ i"
      by (auto simp: rtrancl_finite_eq_relpow [of "set E"])
    from reach_relpow [OF i(2) x(1)] i(1) c show "y \<in> set (reach E n S)" by simp
  qed
qed

lemma within_cong: "set keep = set keep' \<Longrightarrow> within keep = within keep'"
  by (rule ext) (simp add: within_def)

lemma subgraph_cong: "set keep = set keep' \<Longrightarrow> subgraph g keep = subgraph g keep'"
  by (simp add: subgraph_def within_cong [of keep keep'])

lemma has_path_reachable:
  "has_path G s t =
     (if s \<notin> set (g_nodes G) \<or> t \<notin> set (g_nodes G) then Inl NodeNotFound
      else Inr ((s, t) \<in> (set (g_edges G) \<union> (set (g_edges G))\<inverse>)\<^sup>*))"
proof -
  have "set (g_edges G @ map prod.swap (g_edges G)) = set (g_edges G) \<union> (set (g_edges G))\<inverse>"
    by force
  then show ?thesis
    by (simp add: has_path_def set_reach_rtrancl)
qed

lemma has_path_sym: "has_path G s t = has_path G t s"
proof -
  have "sym ((set (g_edges G) \<union> (set (g_edges G))\<inverse>)\<^sup>*)"
    by (rule sym_rtrancl) (rule sym_Un_converse)
  then show ?thesis
    by (auto simp: has_path_reachable dest: symD)
qed

lemma ancestors_reachable:
  "ancestors g vs =
     (if \<not> set vs \<subseteq> set (vertices g) then Inl KeyError
      else Inr (reach (map prod.swap (di_edges g)) (length (di_edges g)) (remdups vs)))"
  by (simp add: ancestors_def)

lemma set_ancestors:
  "ancestors g vs = Inr keep \<Longrightarrow> set keep = {v. \<exists>n \<in> set vs. (v, n) \<in> (set (di_edges g))\<^sup>*}"
proof -
  assume a: "ancestors g vs = Inr keep"
  have s: "prod.swap ` set (di_edges g) = (set (di_edges g))\<inverse>" by force
  from a have "keep = reach (map prod.swap (di_edges g)) (length (di_edges g)) (remdups vs)"
    by (simp add: ancestors_def split: if_splits)
  then have "set keep = ((set (di_edges g))\<inverse>)\<^sup>* `` set vs"
    by (simp add: set_reach_rtrancl s)
  then show ?thesis
    by (auto simp: rtrancl_converse)
qed

lemma create_swap: "create a b cs s = create b a cs s"
proof (cases "name a = name b")
  case True
  then have "a = b" by (cases a, cases b) simp
  then show ?thesis by simp
next
  case False
  then show ?thesis by (auto simp: create_def)
qed


lemma separation_evidence:
  "separation g a b cs =
     (case ancestors (to_admg g) ([name a, name b] @ map name cs) of
        Inl e \<Rightarrow> Inl e
      | Inr keep \<Rightarrow>
          (case has_path (evidence g keep (map name cs)) (name a) (name b) of
             Inl e \<Rightarrow> Inl e
           | Inr p \<Rightarrow> Inr (create a b cs (\<not> p))))"
  by (simp add: separation_def evidence_def Let_def split: sum.splits)

lemma evidence_cong:
  "set keep = set keep' \<Longrightarrow> set cn = set cn' \<Longrightarrow> evidence g keep cn = evidence g keep' cn'"
  by (simp add: evidence_def subgraph_cong [of keep keep'])

lemma ancestors_cong:
  assumes "set vs = set vs'"
  shows "(\<exists>e. ancestors g vs = Inl e \<and> ancestors g vs' = Inl e) \<or>
         (\<exists>keep keep'. ancestors g vs = Inr keep \<and> ancestors g vs' = Inr keep' \<and> set keep = set keep')"
proof (cases "set vs \<subseteq> set (vertices g)")
  case False
  with assms show ?thesis by (simp add: ancestors_def)
next
  case True
  with assms obtain keep keep' where k: "ancestors g vs = Inr keep" "ancestors g vs' = Inr keep'"
    by (simp add: ancestors_def)
  from set_ancestors [OF k(1)] set_ancestors [OF k(2)] assms have "set keep = set keep'"
    by simp
  with k show ?thesis by blast
qed

lemma name_eq_iff: "name a = name b \<longleftrightarrow> a = b"
  by (cases a, cases b) simp

lemma inj_name: "inj name"
  by (simp add: inj_def name_eq_iff)

lemma sort_key_name_cong:
  assumes "set cs = set cs'"
  shows "sort_key name (remdups cs) = sort_key name (remdups cs')"
proof -
  let ?xs = "sort_key name (remdups cs)" and ?ys = "sort_key name (remdups cs')"
  have d: "distinct (map name ?xs)" "distinct (map name ?ys)"
    by (simp_all add: distinct_map inj_name [THEN inj_on_subset])
  have "map name ?xs = map name ?ys"
    by (rule sorted_distinct_set_unique) (use d assms in simp_all)
  then show ?thesis
    using inj_name by (simp add: inj_map_eq_map)
qed

lemma create_cong: "set cs = set cs' \<Longrightarrow> create a b cs s = create a b cs' s"
  by (simp add: create_def sort_key_name_cong [of cs cs'])

lemma separation_swap: "separation g a b cs = separation g b a cs"
proof -
  have "set ([name a, name b] @ map name cs) = set ([name b, name a] @ map name cs)"
    by auto
  from ancestors_cong [OF this, of "to_admg g"] show ?thesis
  proof (elim disjE exE conjE)
    fix e
    assume "ancestors (to_admg g) ([name a, name b] @ map name cs) = Inl e"
      "ancestors (to_admg g) ([name b, name a] @ map name cs) = Inl e"
    then show ?thesis by (simp add: separation_evidence)
  next
    fix keep keep'
    assume k: "ancestors (to_admg g) ([name a, name b] @ map name cs) = Inr keep"
      "ancestors (to_admg g) ([name b, name a] @ map name cs) = Inr keep'"
      "set keep = set keep'"
    from k(3) have "evidence g keep (map name cs) = evidence g keep' (map name cs)"
      by (rule evidence_cong) simp
    with k(1,2) show ?thesis
      by (simp add: separation_evidence create_swap [of a b] has_path_sym [of _ "name a"]
          split: sum.splits)
  qed
qed

lemma separation_cong:
  assumes "set cs = set cs'"
  shows "separation g a b cs = separation g a b cs'"
proof -
  from assms have n: "set (map name cs) = set (map name cs')"
    by simp
  then have "set ([name a, name b] @ map name cs) = set ([name a, name b] @ map name cs')"
    by simp
  from ancestors_cong [OF this, of "to_admg g"] show ?thesis
  proof (elim disjE exE conjE)
    fix e
    assume "ancestors (to_admg g) ([name a, name b] @ map name cs) = Inl e"
      "ancestors (to_admg g) ([name a, name b] @ map name cs') = Inl e"
    then show ?thesis by (simp add: separation_evidence)
  next
    fix keep keep'
    assume k: "ancestors (to_admg g) ([name a, name b] @ map name cs) = Inr keep"
      "ancestors (to_admg g) ([name a, name b] @ map name cs') = Inr keep'"
      "set keep = set keep'"
    from k(3) n have "evidence g keep (map name cs) = evidence g keep' (map name cs')"
      by (rule evidence_cong)
    with k(1,2) show ?thesis
      by (simp add: separation_evidence create_cong [OF assms] split: sum.splits)
  qed
qed

lemma vertices_fold_add_udedge:
  "vertices (fold (\<lambda>(u, v) g. add_udedge g u v) ls g) = vertices g"
  by (induction ls arbitrary: g) (auto simp: add_udedge_def)

lemma g_nodes_evidence:
  "set (g_nodes (evidence g keep cn)) =
     {n. n \<in> set (g_nodes (disorient (fold (\<lambda>(u, v) g. add_udedge g u v)
           (get_moral_links (subgraph (to_admg g) keep)) (subgraph (to_admg g) keep)))) \<and> n \<notin> set cn}"
  by (auto simp: evidence_def nx_subgraph_def Let_def)

lemma vertex_in_evidence:
  assumes "v \<in> set (nodes g)" "name v \<in> set keep" "name v \<notin> set cn"
  shows "name v \<in> set (g_nodes (evidence g keep cn))"
  using assms
  by (simp add: g_nodes_evidence disorient_def Let_def vertices_fold_add_udedge subgraph_def to_admg_def)

lemma conditioned_not_in_evidence:
  "n \<in> set cn \<Longrightarrow> n \<notin> set (g_nodes (evidence g keep cn))"
  by (simp add: g_nodes_evidence)

lemma ancestors_total:
  assumes "set vs \<subseteq> set (vertices g)"
  shows "\<exists>keep. ancestors g vs = Inr keep \<and> set vs \<subseteq> set keep"
  using assms reach_start [of "remdups vs"]
  by (simp add: ancestors_def)

lemma separation_total:
  assumes "a \<in> set (nodes g)" "b \<in> set (nodes g)" "set cs \<subseteq> set (nodes g)"
    and "a \<notin> set cs" "b \<notin> set cs"
  shows "\<exists>p. separation g a b cs = Inr (create a b cs p)"
proof -
  have "set ([name a, name b] @ map name cs) \<subseteq> set (vertices (to_admg g))"
    using assms(1-3) by (auto simp: to_admg_def)
  from ancestors_total [OF this] obtain keep
    where k: "ancestors (to_admg g) ([name a, name b] @ map name cs) = Inr keep"
      "set ([name a, name b] @ map name cs) \<subseteq> set keep"
    by blast
  have na: "name a \<notin> set (map name cs)" "name b \<notin> set (map name cs)"
    using assms(4,5) by (auto simp: name_eq_iff)
  have "name a \<in> set (g_nodes (evidence g keep (map name cs)))"
    "name b \<in> set (g_nodes (evidence g keep (map name cs)))"
    using k(2) na assms(1,2) by (auto intro!: vertex_in_evidence)
  then obtain p where "has_path (evidence g keep (map name cs)) (name a) (name b) = Inr p"
    by (simp add: has_path_def)
  with k(1) have "separation g a b cs = Inr (create a b cs (\<not> p))"
    by (simp add: separation_evidence)
  then show ?thesis by blast
qed

lemma separation_conditioned_endpoint:
  assumes "a \<in> set cs \<or> b \<in> set cs"
  shows "separation g a b cs =
     (if set ([name a, name b] @ map name cs) \<subseteq> set (map name (nodes g))
      then Inl NodeNotFound else Inl KeyError)"
proof (cases "set ([name a, name b] @ map name cs) \<subseteq> set (map name (nodes g))")
  case False
  then have "ancestors (to_admg g) ([name a, name b] @ map name cs) = Inl KeyError"
    by (simp add: ancestors_def to_admg_def)
  with False show ?thesis
    by (simp add: separation_evidence)
next
  case True
  then have "set ([name a, name b] @ map name cs) \<subseteq> set (vertices (to_admg g))"
    by (simp add: to_admg_def)
  from ancestors_total [OF this] obtain keep
    where k: "ancestors (to_admg g) ([name a, name b] @ map name cs) = Inr keep"
    by blast
  from assms have "name a \<in> set (map name cs) \<or> name b \<in> set (map name cs)"
    by auto
  then have "name a \<notin> set (g_nodes (evidence g keep (map name cs))) \<or>
      name b \<notin> set (g_nodes (evidence g keep (map name cs)))"
    using conditioned_not_in_evidence by blast
  then have "has_path (evidence g keep (map name cs)) (name a) (name b) = Inl NodeNotFound"
    by (auto simp: has_path_def)
  with k True show ?thesis
    by (simp add: separation_evidence)
qed

section \<open>The collider\<close>

lemma are_d_separated_Var:
  "are_d_separated (Wrapper g) (Var a) (Var b) (Some (map Var cs)) = separation g a b cs"
proof -
  have "list_all isinstance_Variable (map Var cs)"
    by (simp add: list_all_iff)
  moreover have "map the_Variable (map Var cs) = cs"
    by (induction cs) auto
  ultimately show ?thesis
    by (simp add: are_d_separated_def)
qed

lemma collider_marginal:
  assumes "a \<noteq> b" "a \<noteq> c" "b \<noteq> c"
  shows "separation (collider_of a b c) a b [] = Inr (create a b [] True)"
proof -
  from assms have n: "name a \<noteq> name b" "name a \<noteq> name c" "name b \<noteq> name c"
    by (simp_all add: name_eq_iff)
  have admg: "to_admg (collider_of a b c) =
      \<lparr>vertices = [name a, name b, name c], di_edges = [(name a, name c), (name b, name c)],
       bi_edges = [], ud_edges = []\<rparr>"
    using assms by (simp add: to_admg_def nodes_def collider_of_def)
  have anc: "ancestors (to_admg (collider_of a b c)) [name a, name b] = Inr [name a, name b]"
    using n by (simp add: admg ancestors_def reach_def expand_def successors_def numeral_2_eq_2)
  have sub: "subgraph (to_admg (collider_of a b c)) [name a, name b] =
      \<lparr>vertices = [name a, name b], di_edges = [], bi_edges = [], ud_edges = []\<rparr>"
    using n by (simp add: admg subgraph_def within_def)
  have links: "get_moral_links
      \<lparr>vertices = [name a, name b], di_edges = [], bi_edges = [], ud_edges = []\<rparr> = []"
    by (simp add: get_moral_links_def pairs_def parents_def numeral_2_eq_2)
  have ev: "evidence (collider_of a b c) [name a, name b] [] =
      \<lparr>g_nodes = [name a, name b], g_edges = []\<rparr>"
    using n by (simp add: evidence_def sub links) (simp add: disorient_def nx_subgraph_def)
  have "has_path \<lparr>g_nodes = [name a, name b], g_edges = []\<rparr> (name a) (name b) = Inr False"
    using n by (simp add: has_path_def reach_def)
  with anc ev show ?thesis
    by (simp add: separation_evidence)
qed

lemma collider_conditioned:
  assumes "a \<noteq> b" "a \<noteq> c" "b \<noteq> c"
  shows "separation (collider_of a b c) a b [c] = Inr (create a b [c] False)"
proof -
  from assms have n: "name a \<noteq> name b" "name a \<noteq> name c" "name b \<noteq> name c"
    by (simp_all add: name_eq_iff)
  note n' = n n [symmetric]
  have admg: "to_admg (collider_of a b c) =
      \<lparr>vertices = [name a, name b, name c], di_edges = [(name a, name c), (name b, name c)],
       bi_edges = [], ud_edges = []\<rparr>"
    using assms by (simp add: to_admg_def nodes_def collider_of_def)
  have "set [name a, name b, name c] \<subseteq> set (vertices (to_admg (collider_of a b c)))"
    by (simp add: admg)
  from ancestors_total [OF this] obtain keep
    where keep: "ancestors (to_admg (collider_of a b c)) [name a, name b, name c] = Inr keep"
      "set [name a, name b, name c] \<subseteq> set keep"
    by blast
  have sub: "subgraph (to_admg (collider_of a b c)) keep = to_admg (collider_of a b c)"
    using keep(2) by (simp add: admg subgraph_def within_def)
  have links: "get_moral_links (to_admg (collider_of a b c)) = [(name a, name b)]"
    using n' by (simp add: admg get_moral_links_def pairs_def parents_def numeral_2_eq_2)
  have ev: "evidence (collider_of a b c) keep [name c] =
      \<lparr>g_nodes = [name a, name b], g_edges = [(name a, name b)]\<rparr>"
    using n' by (simp add: evidence_def sub links)
      (simp add: admg add_udedge_def disorient_def nx_subgraph_def within_def)
  have "has_path \<lparr>g_nodes = [name a, name b], g_edges = [(name a, name b)]\<rparr> (name a) (name b)
      = Inr True"
    using n' by (simp add: has_path_def reach_def expand_def successors_def numeral_2_eq_2)
  with keep(1) ev show ?thesis
    by (simp add: separation_evidence)
qed

section \<open>The object store\<close>

lemma lookup_append_new: "lookup (h @ [ob]) (length h) = Some ob"
  by (simp add: lookup_def)

lemma admg_at_new: "admg_at (h @ [ADMGObj g]) (length h) = g"
  by (simp add: admg_at_def lookup_def)

lemma graph_at_new: "graph_at (h @ [GraphObj g]) (length h) = g"
  by (simp add: graph_at_def lookup_def)

lemma fold_add_udedge_at:
  "r < length h \<Longrightarrow> h ! r = ADMGObj x \<Longrightarrow>
   fold (add_udedge_at r) ls h = h[r := ADMGObj (fold (\<lambda>(u, v) g. add_udedge g u v) ls x)]"
proof (induction ls arbitrary: h x)
  case Nil
  then have "h[r := ADMGObj x] = h"
    by (metis list_update_id)
  then show ?case by simp
next
  case (Cons e ls)
  let ?x = "add_udedge x (fst e) (snd e)"
  let ?h = "h[r := ADMGObj ?x]"
  have step: "add_udedge_at r e h = ?h"
    using Cons.prems by (simp add: add_udedge_at_def admg_at_def lookup_def)
  have "fold (add_udedge_at r) ls ?h = ?h[r := ADMGObj (fold (\<lambda>(u, v) g. add_udedge g u v) ls ?x)]"
    using Cons.prems by (intro Cons.IH) simp_all
  moreover have "(\<lambda>(u, v) g. add_udedge g u v) e x = ?x"
    by (cases e) simp
  ultimately show ?case
    using step by simp
qed

lemma separation_st_result:
  "separation_st h g a b cs =
     (case ancestors (to_admg g) ([name a, name b] @ map name cs) of
        Inl e \<Rightarrow> (Inl e, h @ [ADMGObj (to_admg g)])
      | Inr keep \<Rightarrow>
          (separation g a b cs,
           h @ [ADMGObj (to_admg g), ADMGObj (subgraph (to_admg g) keep),
                ADMGObj (fold (\<lambda>(u, v) g. add_udedge g u v)
                   (get_moral_links (subgraph (to_admg g) keep)) (subgraph (to_admg g) keep)),
                GraphObj (disorient (fold (\<lambda>(u, v) g. add_udedge g u v)
                   (get_moral_links (subgraph (to_admg g) keep)) (subgraph (to_admg g) keep))),
                GraphObj (evidence g keep (map name cs))]))"
proof (cases "ancestors (to_admg g) ([name a, name b] @ map name cs)")
  case (Inl e)
  then show ?thesis
    by (simp add: separation_st_def alloc_def admg_at_new)
next
  case (Inr keep)
  let ?sub = "subgraph (to_admg g) keep"
  let ?h3 = "h @ [ADMGObj (to_admg g), ADMGObj ?sub, ADMGObj ?sub]"
  let ?r = "Suc (Suc (length h))"
  have f: "fold (add_udedge_at ?r) (get_moral_links ?sub) ?h3 =
      ?h3[?r := ADMGObj (fold (\<lambda>(u, v) g. add_udedge g u v) (get_moral_links ?sub) ?sub)]"
    by (rule fold_add_udedge_at) (simp_all add: nth_append)
  have a3: "admg_at ?h3 ?r = ?sub"
    by (simp add: admg_at_def lookup_def nth_append)
  have a2: "admg_at (h @ [ADMGObj (to_admg g), ADMGObj ?sub]) (Suc (length h)) = ?sub"
    by (simp add: admg_at_def lookup_def nth_append)
  have u: "?h3[?r := ADMGObj m] = h @ [ADMGObj (to_admg g), ADMGObj ?sub, ADMGObj m]" for m
    by (simp add: list_update_append)
  have a4: "admg_at (h @ [ADMGObj (to_admg g), ADMGObj ?sub, ADMGObj m]) ?r = m" for m
    by (simp add: admg_at_def lookup_def nth_append)
  have g5: "graph_at (h @ [ADMGObj (to_admg g), ADMGObj ?sub, ADMGObj m, GraphObj e])
      (Suc (Suc (Suc (length h)))) = e" for m e
    by (simp add: graph_at_def lookup_def nth_append)
  have g6: "graph_at (h @ [ADMGObj (to_admg g), ADMGObj ?sub, ADMGObj m, GraphObj e, GraphObj e2])
      (Suc (Suc (Suc (Suc (length h))))) = e2" for m e e2
    by (simp add: graph_at_def lookup_def nth_append)
  show ?thesis
    using Inr
    by (simp add: separation_st_def alloc_def admg_at_new a2 a3 f u a4 g5 g6 Let_def
        separation_evidence evidence_def split: sum.splits)
qed

lemma separation_st_fst: "fst (separation_st h g a b cs) = separation g a b cs"
  by (simp add: separation_st_result separation_evidence split: sum.splits)

lemma separation_st_extends: "\<exists>new. snd (separation_st h g a b cs) = h @ new"
  by (simp add: separation_st_result split: sum.splits)

lemma are_d_separated_st_fst:
  "lookup h graph = Some (NxMixedGraphObj g) \<Longrightarrow>
   fst (are_d_separated_st h graph a b conds) = are_d_separated (Wrapper g) a b conds"
  by (simp add: are_d_separated_st_def are_d_separated_def separation_st_fst Let_def)

lemma are_d_separated_st_ananke:
  "lookup h graph = Some (ADMGObj g) \<Longrightarrow>
   fst (are_d_separated_st h graph a b conds) = are_d_separated (Ananke g) a b conds"
  by (simp add: are_d_separated_st_def are_d_separated_def)

lemma are_d_separated_st_extends:
  "\<exists>new. snd (are_d_separated_st h graph a b conds) = h @ new"
  using separation_st_extends
  by (auto simp: are_d_separated_st_def Let_def split: option.splits obj.splits)

lemma separation_errors:
  "separation g a b cs = Inl e \<Longrightarrow> e = KeyError \<or> e = NodeNotFound"
  by (auto simp: separation_evidence ancestors_def has_path_def split: sum.splits if_splits)

section \<open>Grouping and the least element\<close>

lemma groupby_concat: "concat (map snd (groupby f xs)) = xs"
  by (induction f xs rule: groupby.induct) simp_all

lemma groupby_group:
  "(k, vs) \<in> set (groupby f xs) \<Longrightarrow> vs \<noteq> [] \<and> set vs \<subseteq> set xs \<and> (\<forall>v \<in> set vs. f v = k)"
proof (induction f xs rule: groupby.induct)
  case (1 key)
  then show ?case by simp
next
  case (2 key x xs)
  from "2.prems" consider "k = key x" "vs = x # takeWhile (\<lambda>y. key y = key x) xs"
    | "(k, vs) \<in> set (groupby key (dropWhile (\<lambda>y. key y = key x) xs))"
    by auto
  then show ?case
  proof cases
    case 1
    then show ?thesis
      by (auto dest: set_takeWhileD)
  next
    case 2
    from "2.IH" [OF this] show ?thesis
      by (auto dest: set_dropWhileD)
  qed
qed

lemma dropWhile_sorted_greater:
  "sorted (map f (x # xs)) \<Longrightarrow> z \<in> set (dropWhile (\<lambda>y. f y = f x) xs) \<Longrightarrow> f x < f z"
proof (induction xs)
  case Nil
  then show ?case by simp
next
  case (Cons y ys)
  show ?case
  proof (cases "f y = f x")
    case True
    with Cons.prems have "sorted (map f (x # ys))" "z \<in> set (dropWhile (\<lambda>y. f y = f x) ys)"
      by auto
    then show ?thesis by (rule Cons.IH)
  next
    case False
    with Cons.prems have "z \<in> set (y # ys)" "f x \<le> f y" "\<forall>w \<in> set ys. f y \<le> f w"
      by auto
    with False show ?thesis
      by (auto simp: less_le dest: order_trans)
  qed
qed

lemma sorted_map_dropWhile: "sorted (map f xs) \<Longrightarrow> sorted (map f (dropWhile P xs))"
  by (induction xs) auto

lemma groupby_keys_distinct:
  "sorted (map f xs) \<Longrightarrow> distinct (map fst (groupby f xs))"
proof (induction f xs rule: groupby.induct)
  case (1 key)
  then show ?case by simp
next
  case (2 key x xs)
  let ?rest = "dropWhile (\<lambda>y. key y = key x) xs"
  from "2.prems" have "sorted (map key xs)"
    by simp
  then have "sorted (map key ?rest)"
    by (rule sorted_map_dropWhile)
  then have d: "distinct (map fst (groupby key ?rest))"
    by (rule "2.IH")
  have "key x \<notin> fst ` set (groupby key ?rest)"
  proof
    assume "key x \<in> fst ` set (groupby key ?rest)"
    then obtain vs where vs: "(key x, vs) \<in> set (groupby key ?rest)"
      by auto
    from groupby_group [OF this] obtain v where "v \<in> set ?rest" "key v = key x"
      by (cases vs) auto
    with dropWhile_sorted_greater [OF "2.prems", of v] show False
      by simp
  qed
  with d show ?case
    by simp
qed

lemma groupby_covers:
  "x \<in> set xs \<Longrightarrow> \<exists>vs. (f x, vs) \<in> set (groupby f xs) \<and> x \<in> set vs"
proof -
  assume "x \<in> set xs"
  then have "x \<in> set (concat (map snd (groupby f xs)))"
    by (simp only: groupby_concat)
  then obtain k vs where kv: "(k, vs) \<in> set (groupby f xs)" "x \<in> set vs"
    by auto
  from groupby_group [OF kv(1)] kv(2) have "f x = k"
    by auto
  with kv show ?thesis by auto
qed

lemma min_from_least:
  "min_from key m xs \<in> set (m # xs) \<and> (\<forall>y \<in> set (m # xs). key (min_from key m xs) \<le> key y)"
proof (induction xs arbitrary: m)
  case Nil
  then show ?case by simp
next
  case (Cons x xs)
  let ?m = "if key x < key m then x else m"
  from Cons.IH [of ?m]
  have in_set: "min_from key ?m xs \<in> set (?m # xs)"
    and least: "\<forall>y \<in> set (?m # xs). key (min_from key ?m xs) \<le> key y"
    by auto
  from least have "key (min_from key ?m xs) \<le> key ?m"
    by simp
  then have "key (min_from key ?m xs) \<le> key x" "key (min_from key ?m xs) \<le> key m"
    by (auto split: if_splits)
  with in_set least show ?case
    by (auto split: if_splits)
qed

lemma collect_Inr: "collect (map Inr xs) = Inr xs"
  by (induction xs) simp_all

lemma py_min_pick: "vs \<noteq> [] \<Longrightarrow> py_min key vs = Inr (pick key vs)"
  by (cases vs) (simp_all add: py_min_def pick_def)

lemma pick_least:
  "vs \<noteq> [] \<Longrightarrow> pick key vs \<in> set vs \<and> (\<forall>y \<in> set vs. key (pick key vs) \<le> key y)"
  using min_from_least [of key "hd vs" "tl vs"] by (cases vs) (simp_all add: pick_def)

lemma minimal_groups:
  "minimal js policy =
     Inr ((\<lambda>(k, vs). pick policy vs) ` set (groupby judgement_grouper (sort_key judgement_grouper js)))"
proof -
  let ?gs = "groupby judgement_grouper (sort_key judgement_grouper js)"
  have "(\<lambda>(k, vs). py_min policy vs) g = (Inr \<circ> (\<lambda>(k, vs). pick policy vs)) g"
    if "g \<in> set ?gs" for g
  proof (cases g)
    case (Pair k vs)
    with that groupby_group [of k vs judgement_grouper "sort_key judgement_grouper js"]
    show ?thesis
      by (simp add: py_min_pick)
  qed
  then have eq: "map (\<lambda>(k, vs). py_min policy vs) ?gs
      = map Inr (map (\<lambda>(k, vs). pick policy vs) ?gs)"
    unfolding map_map by (rule map_cong [OF refl])
  show ?thesis
    unfolding minimal_def Let_def eq collect_Inr by simp
qed

lemma minimal_properties:
  fixes policy :: "DSeparationJudgement \<Rightarrow> 'k::linorder"
  shows "\<exists>M. minimal js policy = Inr M \<and> M \<subseteq> set js \<and>
      (\<forall>j \<in> set js. \<exists>!m. m \<in> M \<and> judgement_grouper m = judgement_grouper j) \<and>
      (\<forall>m \<in> M. \<forall>j \<in> set js. judgement_grouper j = judgement_grouper m \<longrightarrow> policy m \<le> policy j)"
proof -
  let ?f = judgement_grouper
  let ?xs = "sort_key ?f js"
  let ?gs = "groupby ?f ?xs"
  let ?M = "(\<lambda>(k, vs). pick policy vs) ` set ?gs"
  have srt: "sorted (map ?f ?xs)"
    by (rule sorted_sort_key)
  have dk: "distinct (map fst ?gs)"
    using srt by (rule groupby_keys_distinct)
  have grp: "vs \<noteq> [] \<and> set vs \<subseteq> set js \<and> (\<forall>v \<in> set vs. ?f v = k)"
    if "(k, vs) \<in> set ?gs" for k vs
    using groupby_group [OF that] by simp
  have pk: "pick policy vs \<in> set vs \<and> (\<forall>y \<in> set vs. policy (pick policy vs) \<le> policy y)"
    if "(k, vs) \<in> set ?gs" for k vs
    using grp [OF that] pick_least [of vs policy] by simp
  have key_pick: "?f (pick policy vs) = k" if "(k, vs) \<in> set ?gs" for k vs
    using grp [OF that] pk [OF that] by auto
  have same: "vs = vs'" if "(k, vs) \<in> set ?gs" "(k, vs') \<in> set ?gs" for k vs vs'
    using that by (rule eq_key_imp_eq_value [OF dk])
  have sub: "?M \<subseteq> set js"
  proof
    fix m assume "m \<in> ?M"
    then obtain k vs where k: "(k, vs) \<in> set ?gs" "m = pick policy vs"
      by auto
    from grp [OF k(1)] pk [OF k(1)] k(2) show "m \<in> set js"
      by auto
  qed
  have uniq: "\<exists>!m. m \<in> ?M \<and> ?f m = ?f j" if j: "j \<in> set js" for j
  proof -
    from j have "j \<in> set ?xs" by simp
    from groupby_covers [OF this, of ?f] obtain vs where vs: "(?f j, vs) \<in> set ?gs" "j \<in> set vs"
      by blast
    have p1: "pick policy vs \<in> ?M"
      using vs(1) by (rule rev_image_eqI) simp
    have p2: "?f (pick policy vs) = ?f j"
      using key_pick [OF vs(1)] .
    have p3: "m = pick policy vs" if m: "m \<in> ?M" "?f m = ?f j" for m
    proof -
      from m(1) obtain k' vs' where k': "(k', vs') \<in> set ?gs" "m = pick policy vs'"
        by auto
      with key_pick [OF k'(1)] m(2) have "k' = ?f j" by simp
      with k'(1) have "(?f j, vs') \<in> set ?gs" by simp
      then have "vs' = vs" using vs(1) by (rule same)
      with k'(2) show ?thesis by simp
    qed
    show ?thesis
    proof (rule ex1I [of _ "pick policy vs"])
      show "pick policy vs \<in> ?M \<and> ?f (pick policy vs) = ?f j"
        using p1 p2 by simp
    next
      fix m assume "m \<in> ?M \<and> ?f m = ?f j"
      then show "m = pick policy vs"
        using p3 by simp
    qed
  qed
  have least: "policy m \<le> policy j" if "m \<in> ?M" "j \<in> set js" "?f j = ?f m" for m j
  proof -
    from that(1) obtain k vs where k: "(k, vs) \<in> set ?gs" "m = pick policy vs"
      by auto
    from that(2) have "j \<in> set ?xs" by simp
    from groupby_covers [OF this, of ?f] obtain vs' where vs': "(?f j, vs') \<in> set ?gs" "j \<in> set vs'"
      by blast
    from key_pick [OF k(1)] k(2) that(3) have "k = ?f j" by simp
    with k(1) have "(?f j, vs) \<in> set ?gs" by simp
    with vs'(1) have "vs' = vs" by (rule same)
    with vs'(2) pk [OF k(1)] k(2) show ?thesis by simp
  qed
  show ?thesis
  proof (intro exI conjI)
    show "minimal js policy = Inr ?M"
      by (rule minimal_groups)
    show "?M \<subseteq> set js"
      by (rule sub)
    show "\<forall>j \<in> set js. \<exists>!m. m \<in> ?M \<and> ?f m = ?f j"
      by (intro ballI uniq)
    show "\<forall>m \<in> ?M. \<forall>j \<in> set js. ?f j = ?f m \<longrightarrow> policy m \<le> policy j"
      by (intro ballI impI least)
  qed
qed

section \<open>Topological sorting\<close>

lemma kahn_unfold:
  "kahn E remaining acc =
     (if remaining = [] then Inr acc
      else if ready_nodes E remaining = [] then Inl NetworkXUnfeasible
      else kahn E (filter (\<lambda>v. v \<notin> set (ready_nodes E remaining)) remaining)
             (acc @ ready_nodes E remaining))"
  by (subst kahn.simps) (simp add: Let_def)

lemma kahn_induct:
  assumes step: "\<And>remaining acc.
      (remaining \<noteq> [] \<Longrightarrow> ready_nodes E remaining \<noteq> [] \<Longrightarrow>
         P (filter (\<lambda>v. v \<notin> set (ready_nodes E remaining)) remaining)
           (acc @ ready_nodes E remaining))
      \<Longrightarrow> P remaining acc"
  shows "P remaining acc"
proof -
  have "E' = E \<longrightarrow> P remaining acc" for E'
  proof (induction E' remaining acc rule: kahn.induct)
    case (1 E' remaining acc)
    show ?case
    proof
      assume e: "E' = E"
      show "P remaining acc"
        by (rule step) (use "1.IH" [OF refl] e in simp)
    qed
  qed
  then show ?thesis by simp
qed



lemma ready_nonempty:
  assumes "acyclic (set E)" "remaining \<noteq> []"
  shows "ready_nodes E remaining \<noteq> []"
proof -
  have "wf (set E)"
    using assms(1) by (simp add: finite_acyclic_wf)
  moreover from assms(2) obtain x where "x \<in> set remaining"
    by (cases remaining) auto
  ultimately obtain z where z: "z \<in> set remaining" "\<And>y. (y, z) \<in> set E \<Longrightarrow> y \<notin> set remaining"
    by (metis wfE_min)
  then have "z \<in> set (ready_nodes E remaining)"
    by (auto simp: ready_nodes_def)
  then show ?thesis by auto
qed

lemma kahn_acyclic:
  assumes "acyclic (set E)"
  shows "\<exists>order. kahn E remaining acc = Inr order \<and> set order = set acc \<union> set remaining \<and>
           (distinct acc \<and> distinct remaining \<and> set acc \<inter> set remaining = {} \<longrightarrow> distinct order)"
proof (induction remaining acc rule: kahn_induct [where E = E])
  case (1 remaining acc)
  show ?case
  proof (cases "remaining = []")
    case True
    then show ?thesis
      by (subst kahn_unfold) simp
  next
    case False
    let ?ready = "ready_nodes E remaining"
    let ?rest = "filter (\<lambda>v. v \<notin> set ?ready) remaining"
    from ready_nonempty [OF assms False] have r: "?ready \<noteq> []" .
    from "1.IH" [OF False r] obtain order
      where o: "kahn E ?rest (acc @ ?ready) = Inr order"
        "set order = set (acc @ ?ready) \<union> set ?rest"
        "distinct (acc @ ?ready) \<and> distinct ?rest \<and> set (acc @ ?ready) \<inter> set ?rest = {}
           \<longrightarrow> distinct order"
      by blast
    have sub: "set ?ready \<subseteq> set remaining"
      by (auto simp: ready_nodes_def)
    have dr: "distinct remaining \<Longrightarrow> distinct ?ready"
      by (simp add: ready_nodes_def)
    from o(2) sub have s: "set order = set acc \<union> set remaining"
      by auto
    have "distinct order" if "distinct acc" "distinct remaining" "set acc \<inter> set remaining = {}"
    proof -
      from that sub dr have "distinct (acc @ ?ready)" "distinct ?rest"
        "set (acc @ ?ready) \<inter> set ?rest = {}"
        by auto
      with o(3) show ?thesis by simp
    qed
    with o(1) s False r show ?thesis
      by (subst kahn_unfold) simp
  qed
qed

lemma kahn_forward:
  assumes "kahn E remaining acc = Inr order"
    and "\<forall>e \<in> set E. fst e \<in> set acc \<union> set remaining"
    and "\<forall>e \<in> set E. snd e \<in> set acc \<longrightarrow> (\<exists>ys zs. acc = ys @ zs \<and> fst e \<in> set ys \<and> snd e \<in> set zs)"
  shows "\<forall>e \<in> set E. snd e \<in> set order \<longrightarrow> (\<exists>ys zs. order = ys @ zs \<and> fst e \<in> set ys \<and> snd e \<in> set zs)"
  using assms
proof (induction remaining acc rule: kahn_induct [where E = E])
  case (1 remaining acc)
  show ?case
  proof (cases "remaining = []")
    case True
    with "1.prems"(1) have "order = acc"
      by (subst (asm) kahn_unfold) simp
    with "1.prems"(3) show ?thesis by simp
  next
    case False
    let ?ready = "ready_nodes E remaining"
    let ?rest = "filter (\<lambda>v. v \<notin> set ?ready) remaining"
    from "1.prems"(1) False have r: "?ready \<noteq> []"
      by (subst (asm) kahn_unfold) (auto split: if_splits)
    with "1.prems"(1) False have k: "kahn E ?rest (acc @ ?ready) = Inr order"
      by (subst (asm) kahn_unfold) simp
    have u: "set (acc @ ?ready) \<union> set ?rest = set acc \<union> set remaining"
      by (auto simp: ready_nodes_def)
    have a: "\<forall>e \<in> set E. fst e \<in> set (acc @ ?ready) \<union> set ?rest"
      using "1.prems"(2) unfolding u .
    have b: "\<exists>ys zs. acc @ ?ready = ys @ zs \<and> fst e \<in> set ys \<and> snd e \<in> set zs"
      if e: "e \<in> set E" "snd e \<in> set (acc @ ?ready)" for e
    proof (cases "snd e \<in> set acc")
      case True
      with "1.prems"(3) e(1) obtain ys zs where "acc = ys @ zs" "fst e \<in> set ys" "snd e \<in> set zs"
        by blast
      then have "acc @ ?ready = ys @ (zs @ ?ready)" "fst e \<in> set ys" "snd e \<in> set (zs @ ?ready)"
        by simp_all
      then show ?thesis by blast
    next
      case False
      with e(2) have sr: "snd e \<in> set ?ready"
        by simp
      with e(1) have "fst e \<notin> set remaining"
        by (auto simp: ready_nodes_def)
      with "1.prems"(2) e(1) have "fst e \<in> set acc"
        by auto
      with sr show ?thesis by blast
    qed
    from "1.IH" [OF False r k a] b show ?thesis
      by blast
  qed
qed

lemma set_nodes:
  "set (nodes g) = set (node_list g) \<union> fst ` set (directed g) \<union> snd ` set (directed g)
     \<union> fst ` set (undirected g) \<union> snd ` set (undirected g)"
proof -
  have "set (concat (map (\<lambda>(u, v). [u, v]) es)) = fst ` set es \<union> snd ` set es"
    for es :: "(variable \<times> variable) list"
    by (induction es) auto
  then show ?thesis
    by (auto simp: nodes_def)
qed



lemma topological_sort_acyclic:
  assumes "acyclic (set (directed g))"
  shows "\<exists>order. topological_sort g = Inr order \<and> distinct order \<and> set order = set (nodes g) \<and>
           (\<forall>e \<in> set (directed g). \<exists>ys zs. order = ys @ zs \<and> fst e \<in> set ys \<and> snd e \<in> set zs)"
proof -
  from kahn_acyclic [OF assms, of "nodes g" "[]"] obtain order
    where o: "kahn (directed g) (nodes g) [] = Inr order" "set order = set (nodes g)" "distinct order"
    by (auto simp: nodes_def)
  have ends: "fst e \<in> set (nodes g) \<and> snd e \<in> set (nodes g)" if "e \<in> set (directed g)" for e
    using that by (simp add: set_nodes)
  have "\<forall>e \<in> set (directed g). snd e \<in> set order \<longrightarrow>
      (\<exists>ys zs. order = ys @ zs \<and> fst e \<in> set ys \<and> snd e \<in> set zs)"
    by (rule kahn_forward [OF o(1)]) (use ends in auto)
  with ends o(2) have "\<forall>e \<in> set (directed g). \<exists>ys zs. order = ys @ zs \<and> fst e \<in> set ys \<and> snd e \<in> set zs"
    by blast
  with o show ?thesis
    by (simp add: topological_sort_def)
qed

lemma index_present:
  "v \<in> set xs \<Longrightarrow> \<exists>i. index xs v = Inr i \<and> i < length xs \<and> xs ! i = v"
proof (induction xs)
  case Nil
  then show ?case by simp
next
  case (Cons x xs)
  show ?case
  proof (cases "x = v")
    case True
    then show ?thesis by simp
  next
    case False
    with Cons.prems have "v \<in> set xs" by simp
    from Cons.IH [OF this] obtain i where "index xs v = Inr i" "i < length xs" "xs ! i = v"
      by blast
    with False show ?thesis by simp
  qed
qed

lemma index_absent: "v \<notin> set xs \<Longrightarrow> index xs v = Inl ValueError"
  by (induction xs) auto

lemma index_error: "index xs v = Inl e \<Longrightarrow> e = ValueError"
  by (induction xs arbitrary: e) (auto split: if_splits sum.splits)

lemma collect_indices:
  "set cs \<subseteq> set order \<Longrightarrow>
   \<exists>ixs. collect (map (index order) cs) = Inr ixs \<and> length ixs = length cs \<and>
        (\<forall>k < length ixs. ixs ! k < length order \<and> order ! (ixs ! k) = cs ! k)"
proof (induction cs)
  case Nil
  then show ?case by simp
next
  case (Cons c cs)
  from Cons.prems have "c \<in> set order" "set cs \<subseteq> set order"
    by simp_all
  from index_present [OF this(1)] obtain i where i: "index order c = Inr i" "i < length order" "order ! i = c"
    by blast
  from Cons.IH [OF \<open>set cs \<subseteq> set order\<close>] obtain ixs
    where ixs: "collect (map (index order) cs) = Inr ixs" "length ixs = length cs"
      "\<forall>k < length ixs. ixs ! k < length order \<and> order ! (ixs ! k) = cs ! k"
    by blast
  have "\<forall>k < length (i # ixs). (i # ixs) ! k < length order \<and> order ! ((i # ixs) ! k) = (c # cs) ! k"
    using i ixs(3) by (auto simp: nth_Cons split: nat.splits)
  with i(1) ixs(1,2) show ?case
    by (intro exI [of _ "i # ixs"]) simp
qed

lemma collect_indices_error:
  "\<not> set cs \<subseteq> set order \<Longrightarrow> collect (map (index order) cs) = Inl ValueError"
proof (induction cs)
  case Nil
  then show ?case by simp
next
  case (Cons c cs)
  show ?case
  proof (cases "index order c")
    case (Inl e)
    with index_error [OF this] show ?thesis by simp
  next
    case (Inr i)
    then have "c \<in> set order"
      using index_absent [of c order] by auto
    with Cons.prems have "\<not> set cs \<subseteq> set order" by simp
    from Cons.IH [OF this] Inr show ?thesis by simp
  qed
qed

section \<open>Combinations and the power set\<close>

lemma combinations_one: "combinations xs (Suc 0) = map (\<lambda>x. [x]) xs"
  by (induction xs) simp_all

lemma pairs_Nil: "pairs [] = []"
  by (simp add: pairs_def numeral_2_eq_2)

lemma pairs_Cons: "pairs (x # xs) = map (Pair x) xs @ pairs xs"
  by (simp add: pairs_def numeral_2_eq_2 combinations_one comp_def)

lemma pairs_members: "(a, b) \<in> set (pairs xs) \<Longrightarrow> a \<in> set xs \<and> b \<in> set xs"
  by (induction xs) (auto simp: pairs_Nil pairs_Cons)

lemma pairs_different: "distinct xs \<Longrightarrow> (a, b) \<in> set (pairs xs) \<Longrightarrow> a \<noteq> b"
  by (induction xs) (auto simp: pairs_Nil pairs_Cons dest: pairs_members)


lemma pairs_unordered_distinct:
  "distinct xs \<Longrightarrow> distinct (map (\<lambda>(a, b). {a, b}) (pairs xs))"
proof (induction xs)
  case Nil
  then show ?case by (simp add: pairs_Nil)
next
  case (Cons x xs)
  have 1: "distinct (map (\<lambda>y. {x, y}) xs)"
    using Cons.prems by (auto simp: distinct_map inj_on_def doubleton_eq_iff)
  have 2: "{x, y} \<noteq> {a, b}" if "y \<in> set xs" "(a, b) \<in> set (pairs xs)" for y a b
    using pairs_members [OF that(2)] Cons.prems by (auto simp: doubleton_eq_iff)
  from Cons 1 2 show ?case
    by (auto simp: pairs_Cons comp_def)
qed

lemma combinations_length: "ys \<in> set (combinations xs r) \<Longrightarrow> length ys = r"
  by (induction xs r arbitrary: ys rule: combinations.induct) auto

lemma combinations_subset: "ys \<in> set (combinations xs r) \<Longrightarrow> set ys \<subseteq> set xs"
proof (induction xs r arbitrary: ys rule: combinations.induct)
  case (1 xs)
  then show ?case by simp
next
  case (2 r)
  then show ?case by simp
next
  case (3 x xs r)
  from "3.prems" consider zs where "ys = x # zs" "zs \<in> set (combinations xs r)"
    | "ys \<in> set (combinations xs (Suc r))"
    by auto
  then show ?case
  proof cases
    case 1
    with "3.IH"(1) [of zs] show ?thesis by auto
  next
    case 2
    with "3.IH"(2) [of ys] show ?thesis by auto
  qed
qed

lemma combinations_length_subset:
  "ys \<in> set (combinations xs r) \<Longrightarrow> length ys = r \<and> set ys \<subseteq> set xs"
  using combinations_length combinations_subset by blast

lemma combinations_complete:
  "S \<subseteq> set xs \<Longrightarrow> \<exists>ys \<in> set (combinations xs (card S)). set ys = S"
proof (induction xs arbitrary: S)
  case Nil
  then show ?case by simp
next
  case (Cons x xs)
  have fin: "finite S"
    using Cons.prems by (rule finite_subset) simp
  show ?case
  proof (cases "x \<in> S")
    case True
    with Cons.prems have "S - {x} \<subseteq> set xs" by auto
    from Cons.IH [OF this] obtain ys where ys: "ys \<in> set (combinations xs (card (S - {x})))"
      "set ys = S - {x}"
      by blast
    define n where "n = card (S - {x})"
    have c: "card S = Suc n"
      unfolding n_def using fin True by (rule card.remove)
    from ys(1) have "ys \<in> set (combinations xs n)"
      by (simp only: n_def)
    then have "x # ys \<in> set (combinations (x # xs) (card S))"
      unfolding c by simp
    moreover from ys(2) True have "set (x # ys) = S"
      by auto
    ultimately show ?thesis by blast
  next
    case False
    with Cons.prems have "S \<subseteq> set xs" by auto
    from Cons.IH [OF this] obtain ys where ys: "ys \<in> set (combinations xs (card S))" "set ys = S"
      by blast
    show ?thesis
    proof (cases "card S")
      case 0
      with fin have "S = {}" by simp
      then show ?thesis by simp
    next
      case (Suc r)
      with ys show ?thesis by auto
    qed
  qed
qed

lemma powerset_limit: "powerset s stop = concat (map (combinations s) [0..<size_limit s stop])"
  by (simp add: powerset_def size_limit_def)


lemma set_powerset:
  "ys \<in> set (powerset s stop) \<longleftrightarrow> (\<exists>r < size_limit s stop. ys \<in> set (combinations s r))"
  by (auto simp: powerset_limit)

lemma sorted_length_chunks: "sorted (map length (concat (map (combinations s) [0..<m])))"
proof (induction m)
  case 0
  then show ?case by simp
next
  case (Suc m)
  have "length ys \<le> length zs"
    if "ys \<in> set (concat (map (combinations s) [0..<m]))" "zs \<in> set (combinations s m)" for ys zs
  proof -
    from that(1) obtain r where "r < m" "ys \<in> set (combinations s r)"
      by auto
    with combinations_length_subset [of ys s r] combinations_length_subset [OF that(2)]
    show ?thesis by simp
  qed
  moreover have "sorted (map length (combinations s m))"
  proof -
    have "map length (combinations s m) = replicate (length (combinations s m)) m"
      by (rule map_replicate_const [THEN subst [where P = "\<lambda>x. _ = x"]])
        (use combinations_length_subset in \<open>auto intro!: map_cong\<close>)
    then show ?thesis
      by (simp add: sorted_replicate)
  qed
  ultimately show ?case
    using Suc by (auto simp: sorted_append)
qed

lemma powerset_sorted: "sorted (map length (powerset s stop))"
  by (simp only: powerset_limit sorted_length_chunks)

lemma find_first_shortest:
  "List.find P xs = Some x \<Longrightarrow> sorted (map f xs) \<Longrightarrow> y \<in> set xs \<Longrightarrow> P y \<Longrightarrow> f x \<le> (f y :: nat)"
proof (induction xs)
  case Nil
  then show ?case by simp
next
  case (Cons z zs)
  show ?case
  proof (cases "P z")
    case True
    with Cons.prems show ?thesis by auto
  next
    case False
    with Cons.prems have "List.find P zs = Some x" "sorted (map f zs)" "y \<in> set zs"
      by auto
    from Cons.IH [OF this Cons.prems(4)] show ?thesis .
  qed
qed

section \<open>The loops of d_separations\<close>

lemma separated_create: "separated (create a b cs p) = p"
  by (simp add: create_def)

lemma create_flag: "create a b cs p = create a b cs q \<longleftrightarrow> p = q"
  by (auto simp: create_def)

lemma search_raised:
  assumes "\<forall>cs \<in> set css. \<exists>p. separation g a b cs = Inr (create a b cs p)"
  shows "raised (search g ra a b css) = None"
  using assms
proof (induction css)
  case Nil
  then show ?case by simp
next
  case (Cons cs css)
  then obtain p where "separation g a b cs = Inr (create a b cs p)"
    by auto
  with Cons show ?case
    by (cases ra; cases p) (simp_all add: are_d_separated_Var separated_create Let_def)
qed

lemma search_all:
  assumes "\<forall>cs \<in> set css. \<exists>p. separation g a b cs = Inr (create a b cs p)"
  shows "yielded (search g True a b css) = map (\<lambda>cs. create a b cs True) (filter (separating g a b) css)
       \<and> tested (search g True a b css) = map (\<lambda>cs. (a, b, cs)) css"
  using assms
proof (induction css)
  case Nil
  then show ?case by simp
next
  case (Cons cs css)
  then obtain p where "separation g a b cs = Inr (create a b cs p)"
    by auto
  with Cons show ?case
    by (cases p) (simp_all add: are_d_separated_Var separated_create Let_def separating_def create_flag)
qed

lemma search_first:
  assumes "\<forall>cs \<in> set css. \<exists>p. separation g a b cs = Inr (create a b cs p)"
  shows "yielded (search g False a b css) =
     (case List.find (separating g a b) css of None \<Rightarrow> [] | Some cs \<Rightarrow> [create a b cs True])"
  using assms
proof (induction css)
  case Nil
  then show ?case by simp
next
  case (Cons cs css)
  then obtain p where "separation g a b cs = Inr (create a b cs p)"
    by auto
  with Cons show ?case
    by (cases p) (simp_all add: are_d_separated_Var separated_create Let_def separating_def create_flag)
qed


lemma pair_loop_concat:
  assumes "\<forall>(a, b) \<in> set ps. raised (search g ra a b (powerset (others vs a b) mc)) = None"
  shows "raised (pair_loop g mc ra vs ps) = None \<and>
     yielded (pair_loop g mc ra vs ps) =
       concat (map (\<lambda>(a, b). yielded (search g ra a b (powerset (others vs a b) mc))) ps) \<and>
     tested (pair_loop g mc ra vs ps) =
       concat (map (\<lambda>(a, b). tested (search g ra a b (powerset (others vs a b) mc))) ps)"
  using assms
proof (induction ps)
  case Nil
  then show ?case by simp
next
  case (Cons p ps)
  obtain a b where p: "p = (a, b)" by (cases p)
  with Cons show ?case
    by (simp add: Let_def)
qed

lemma distinct_nodes: "distinct (nodes g)"
  by (simp add: nodes_def)

lemma candidates_total:
  assumes "(a, b) \<in> set (pairs (nodes g))" "cs \<in> set (powerset (others (nodes g) a b) mc)"
  shows "\<exists>p. separation g a b cs = Inr (create a b cs p)"
proof -
  from assms(2) obtain r where "cs \<in> set (combinations (others (nodes g) a b) r)"
    by (auto simp: set_powerset)
  then have "set cs \<subseteq> set (others (nodes g) a b)"
    by (rule combinations_subset)
  then have "set cs \<subseteq> set (nodes g)" "a \<notin> set cs" "b \<notin> set cs"
    by (auto simp: others_def)
  with pairs_members [OF assms(1)] show ?thesis
    by (intro separation_total) auto
qed

lemma d_separations_runs:
  "raised (d_separations (Wrapper g) mc ra) = None \<and>
   yielded (d_separations (Wrapper g) mc ra) =
     concat (map (\<lambda>(a, b). yielded (search g ra a b (powerset (others (nodes g) a b) mc))) (pairs (nodes g))) \<and>
   tested (d_separations (Wrapper g) mc ra) =
     concat (map (\<lambda>(a, b). tested (search g ra a b (powerset (others (nodes g) a b) mc))) (pairs (nodes g)))"
proof -
  have "\<forall>(a, b) \<in> set (pairs (nodes g)).
      raised (search g ra a b (powerset (others (nodes g) a b) mc)) = None"
    using candidates_total [of _ _ g _ mc]
    by (auto intro!: search_raised)
  from pair_loop_concat [OF this] show ?thesis
    by (simp add: d_separations_def Let_def)
qed

lemma length_conditions_create: "length (conditions (create a b cs p)) = card (set cs)"
  by (simp add: create_def length_remdups_card_conv)

lemma pair_create: "{left (create a b cs p), right (create a b cs p)} = {a, b}"
  by (auto simp: create_def)

lemma separating_cong: "set cs = set cs' \<Longrightarrow> separating g a b cs = separating g a b cs'"
  by (simp add: separating_def separation_cong [of cs cs'] create_cong [of cs cs'])

lemma separating_swap: "separating g a b cs = separating g b a cs"
  by (simp add: separating_def separation_swap [of g a b] create_swap [of a b])

lemma separating_iff:
  assumes "\<exists>p. separation g a b cs = Inr (create a b cs p)"
  shows "separating g a b cs \<longleftrightarrow>
     (\<exists>j. are_d_separated (Wrapper g) (Var a) (Var b) (Some (map Var cs)) = Inr j \<and> separated j)"
proof -
  from assms obtain p where "separation g a b cs = Inr (create a b cs p)"
    by blast
  then show ?thesis
    by (auto simp: separating_def are_d_separated_Var separated_create create_flag)
qed

lemma separating_judgement:
  "separating g a b cs \<Longrightarrow>
   are_d_separated (Wrapper g) (Var a) (Var b) (Some (map Var cs)) = Inr (create a b cs True)"
  by (simp add: separating_def are_d_separated_Var)

lemma first_hit_minimal:
  assumes f: "List.find (separating g a b) (powerset (others (nodes g) a b) mc) = Some cs0"
    and cs: "set cs \<subseteq> set (nodes g) - {a, b}" "separating g a b cs"
  shows "card (set cs0) \<le> card (set cs)"
proof -
  let ?rest = "others (nodes g) a b"
  from cs(1) have "set cs \<subseteq> set ?rest"
    by (auto simp: others_def)
  from combinations_complete [OF this] obtain ys
    where ys: "ys \<in> set (combinations ?rest (card (set cs)))" "set ys = set cs"
    by blast
  from ys(2) cs(2) have sy: "separating g a b ys"
    by (simp add: separating_cong [of ys cs])
  from ys(1) have ly: "length ys = card (set cs)"
    by (rule combinations_length)
  from f have "cs0 \<in> set (powerset ?rest mc)"
    by (auto simp: find_Some_iff)
  then obtain r0 where r0: "r0 < size_limit ?rest mc" "cs0 \<in> set (combinations ?rest r0)"
    by (auto simp: set_powerset)
  from r0(2) have l0: "length cs0 = r0"
    by (rule combinations_length)
  have "length cs0 \<le> card (set cs)"
  proof (cases "card (set cs) < size_limit ?rest mc")
    case True
    with ys(1) have "ys \<in> set (powerset ?rest mc)"
      by (auto simp: set_powerset)
    from find_first_shortest [OF f powerset_sorted this sy] ly show ?thesis
      by simp
  next
    case False
    with r0(1) l0 show ?thesis by simp
  qed
  with card_length [of cs0] show ?thesis
    by linarith
qed

lemma filter_concat_at_most_one:
  assumes "distinct (map k ps)"
    and "\<forall>p \<in> set ps. length (F p) \<le> 1 \<and> (\<forall>j \<in> set (F p). h j = k p)"
  shows "length (filter (\<lambda>j. h j = c) (concat (map F ps))) \<le> 1"
  using assms
proof (induction ps)
  case Nil
  then show ?case by simp
next
  case (Cons p ps)
  from Cons.prems have ih: "length (filter (\<lambda>j. h j = c) (concat (map F ps))) \<le> 1"
    by (intro Cons.IH) auto
  show ?case
  proof (cases "k p = c")
    case True
    have "filter (\<lambda>j. h j = c) (concat (map F ps)) = []"
    proof (rule ccontr)
      assume "filter (\<lambda>j. h j = c) (concat (map F ps)) \<noteq> []"
      then obtain j where "j \<in> set (concat (map F ps))" "h j = c"
        unfolding filter_empty_conv by blast
      then obtain q where "q \<in> set ps" "j \<in> set (F q)"
        by auto
      with Cons.prems(2) \<open>h j = c\<close> True have "k q = k p"
        by auto
      moreover from Cons.prems(1) have "k p \<notin> k ` set ps"
        by simp
      ultimately show False
        using \<open>q \<in> set ps\<close> by (metis imageI)
    qed
    moreover have "length (filter (\<lambda>j. h j = c) (F p)) \<le> 1"
    proof -
      from Cons.prems(2) have "length (F p) \<le> 1"
        by simp
      with length_filter_le [of "\<lambda>j. h j = c" "F p"] show ?thesis
        by linarith
    qed
    ultimately show ?thesis by simp
  next
    case False
    with Cons.prems(2) have "filter (\<lambda>j. h j = c) (F p) = []"
      by (auto simp: filter_empty_conv)
    with ih show ?thesis by simp
  qed
qed

lemma yielded_first:
  "yielded (d_separations (Wrapper g) mc False) = concat (map (first_hit g mc) (pairs (nodes g)))"
proof -
  have "(\<lambda>(a, b). yielded (search g False a b (powerset (others (nodes g) a b) mc))) p = first_hit g mc p"
    if "p \<in> set (pairs (nodes g))" for p
  proof (cases p)
    case (Pair a b)
    with that have "\<forall>cs \<in> set (powerset (others (nodes g) a b) mc).
        \<exists>q. separation g a b cs = Inr (create a b cs q)"
      by (auto intro: candidates_total)
    from search_first [OF this] Pair show ?thesis
      by (simp add: first_hit_def split: option.splits)
  qed
  then have eq: "map (\<lambda>(a, b). yielded (search g False a b (powerset (others (nodes g) a b) mc)))
      (pairs (nodes g)) = map (first_hit g mc) (pairs (nodes g))"
    by (rule map_cong [OF refl])
  from d_separations_runs [of g mc False]
  have "yielded (d_separations (Wrapper g) mc False) =
      concat (map (\<lambda>(a, b). yielded (search g False a b (powerset (others (nodes g) a b) mc)))
        (pairs (nodes g)))"
    by blast
  then show ?thesis
    by (simp only: eq)
qed

lemma yielded_all:
  "yielded (d_separations (Wrapper g) mc True) =
     concat (map (\<lambda>(a, b). map (\<lambda>cs. create a b cs True)
                   (filter (separating g a b) (powerset (others (nodes g) a b) mc)))
               (pairs (nodes g)))"
proof -
  have "(\<lambda>(a, b). yielded (search g True a b (powerset (others (nodes g) a b) mc))) p =
      (\<lambda>(a, b). map (\<lambda>cs. create a b cs True)
         (filter (separating g a b) (powerset (others (nodes g) a b) mc))) p"
    if "p \<in> set (pairs (nodes g))" for p
  proof (cases p)
    case (Pair a b)
    with that have "\<forall>cs \<in> set (powerset (others (nodes g) a b) mc).
        \<exists>q. separation g a b cs = Inr (create a b cs q)"
      by (auto intro: candidates_total)
    from search_all [OF this] Pair show ?thesis
      by simp
  qed
  then have eq: "map (\<lambda>(a, b). yielded (search g True a b (powerset (others (nodes g) a b) mc)))
      (pairs (nodes g)) = map (\<lambda>(a, b). map (\<lambda>cs. create a b cs True)
         (filter (separating g a b) (powerset (others (nodes g) a b) mc))) (pairs (nodes g))"
    by (rule map_cong [OF refl])
  from d_separations_runs [of g mc True]
  have "yielded (d_separations (Wrapper g) mc True) =
      concat (map (\<lambda>(a, b). yielded (search g True a b (powerset (others (nodes g) a b) mc)))
        (pairs (nodes g)))"
    by blast
  then show ?thesis
    by (simp only: eq)
qed


section \<open>The examples\<close>

lemma examples_distinct: "vA \<noteq> vB" "vA \<noteq> vC" "vB \<noteq> vC"
  by (simp_all add: vA_def vB_def vC_def)

lemma nodes_collider: "nodes collider = [vA, vB, vC]"
  by code_simp

lemma topological_sort_chain: "topological_sort chain = Inr [vA, vC, vB]"
  by code_simp


lemma acyclic_chain: "acyclic (set (directed chain))"
proof (rule acyclicI_order)
  fix a b assume "(a, b) \<in> set (directed chain)"
  then show "(if b = vA then 2 else if b = vC then 1 else (0::nat))
      < (if a = vA then 2 else if a = vC then 1 else 0)"
    using examples_distinct by (auto simp: chain_def)
qed


lemma policy_chain: "topological_policy (create vA vB [vC] True) [vA, vC, vB] = Inr (1, 1)"
  by code_simp

lemma policy_foreign: "topological_policy foreign_judgement [vA, vC, vB] = Inl ValueError"
  by code_simp



lemma yielded_chain: "yielded (d_separations (Wrapper chain) None False) = [create vA vB [vC] True]"
  by code_simp

lemma yielded_chain_all: "yielded (d_separations (Wrapper chain) None True) = [create vA vB [vC] True]"
  by code_simp


section \<open>Claims about are_d_separated\<close>

text \<open>
  C1 (symmetry of the separation test): for a graph \<open>G\<close>, distinct variables \<open>a\<close> and
  \<open>b\<close> that are nodes of \<open>G\<close> and conditions \<open>C\<close> that contain neither, the calls
  \<open>are_d_separated(G, a, b, conditions=C)\<close> and \<open>are_d_separated(G, b, a, conditions=C)\<close>
  have the same outcome; when the conditions are nodes of \<open>G\<close> both return one and the
  same judgement (so their \<open>separated\<close> flags agree and the judgements compare equal),
  which is about the pair \<open>a\<close>, \<open>b\<close> and the condition set \<open>C\<close>.
\<close>

theorem are_d_separated_symmetric:
  assumes "a \<in> set (nodes G)" "b \<in> set (nodes G)" "a \<noteq> b" "a \<notin> set C" "b \<notin> set C"
  shows "are_d_separated (Wrapper G) (Var a) (Var b) (Some (map Var C)) =
           are_d_separated (Wrapper G) (Var b) (Var a) (Some (map Var C)) \<and>
         (set C \<subseteq> set (nodes G) \<longrightarrow>
            (\<exists>j. are_d_separated (Wrapper G) (Var a) (Var b) (Some (map Var C)) = Inr j \<and>
                 are_d_separated (Wrapper G) (Var b) (Var a) (Some (map Var C)) = Inr j \<and>
                 left j \<noteq> right j \<and> {left j, right j} = {a, b} \<and> set (conditions j) = set C))"
proof (intro conjI impI)
  show sym: "are_d_separated (Wrapper G) (Var a) (Var b) (Some (map Var C)) =
      are_d_separated (Wrapper G) (Var b) (Var a) (Some (map Var C))"
    by (simp add: are_d_separated_Var separation_swap [of G a b])
  assume "set C \<subseteq> set (nodes G)"
  from separation_total [OF assms(1,2) this assms(4,5)]
  obtain p where p: "separation G a b C = Inr (create a b C p)"
    by blast
  have "left (create a b C p) \<noteq> right (create a b C p)"
    "{left (create a b C p), right (create a b C p)} = {a, b}"
    "set (conditions (create a b C p)) = set C"
    using assms(3) by (auto simp: create_def)
  moreover have "are_d_separated (Wrapper G) (Var a) (Var b) (Some (map Var C)) = Inr (create a b C p)"
    "are_d_separated (Wrapper G) (Var b) (Var a) (Some (map Var C)) = Inr (create a b C p)"
    using p by (simp_all add: are_d_separated_Var separation_swap [of G b a])
  ultimately show "\<exists>j. are_d_separated (Wrapper G) (Var a) (Var b) (Some (map Var C)) = Inr j \<and>
      are_d_separated (Wrapper G) (Var b) (Var a) (Some (map Var C)) = Inr j \<and>
      left j \<noteq> right j \<and> {left j, right j} = {a, b} \<and> set (conditions j) = set C"
    by blast
qed

theorem are_d_separated_symmetric_witness:
  "are_d_separated (Wrapper collider) (Var vA) (Var vB) (Some (map Var [vC])) =
     Inr \<lparr>separated = False, left = vA, right = vB, conditions = [vC]\<rparr> \<and>
   are_d_separated (Wrapper collider) (Var vB) (Var vA) (Some (map Var [vC])) =
     Inr \<lparr>separated = False, left = vA, right = vB, conditions = [vC]\<rparr>"
proof -
  have v: "are_d_separated (Wrapper collider) (Var vA) (Var vB) (Some (map Var [vC])) =
     Inr \<lparr>separated = False, left = vA, right = vB, conditions = [vC]\<rparr>"
    by code_simp
  have "vA \<in> set (nodes collider)" "vB \<in> set (nodes collider)" "vA \<noteq> vB"
    "vA \<notin> set [vC]" "vB \<notin> set [vC]"
    using examples_distinct by (simp_all add: nodes_collider)
  from are_d_separated_symmetric [OF this] v show ?thesis
    by simp
qed

text \<open>
  C2 (collider blocking): in the graph with the three nodes \<open>a\<close>, \<open>b\<close>, \<open>c\<close> whose
  only edges are \<open>a \<rightarrow> c\<close> and \<open>b \<rightarrow> c\<close>, the test of \<open>a\<close> and \<open>b\<close> with no conditions
  returns a judgement with \<open>separated = True\<close>, and with the condition \<open>c\<close> a judgement
  with \<open>separated = False\<close>.
\<close>

theorem collider_blocking:
  assumes "a \<noteq> b" "a \<noteq> c" "b \<noteq> c"
  shows "(\<exists>j. are_d_separated (Wrapper (collider_of a b c)) (Var a) (Var b) (Some []) = Inr j \<and>
              separated j) \<and>
         (\<exists>j. are_d_separated (Wrapper (collider_of a b c)) (Var a) (Var b) (Some [Var c]) = Inr j \<and>
              \<not> separated j)"
proof -
  have "are_d_separated (Wrapper (collider_of a b c)) (Var a) (Var b) (Some [])
      = Inr (create a b [] True)"
    using are_d_separated_Var [of "collider_of a b c" a b "[]"] collider_marginal [OF assms]
    by simp
  moreover have "are_d_separated (Wrapper (collider_of a b c)) (Var a) (Var b) (Some [Var c])
      = Inr (create a b [c] False)"
    using are_d_separated_Var [of "collider_of a b c" a b "[c]"] collider_conditioned [OF assms]
    by simp
  ultimately show ?thesis
    by (simp add: create_def)
qed

theorem collider_blocking_witness:
  "(\<exists>j. are_d_separated (Wrapper (collider_of vA vB vC)) (Var vA) (Var vB) (Some []) = Inr j \<and>
        separated j) \<and>
   (\<exists>j. are_d_separated (Wrapper (collider_of vA vB vC)) (Var vA) (Var vB) (Some [Var vC]) = Inr j \<and>
        \<not> separated j)"
  using collider_blocking [OF examples_distinct] .

text \<open>
  C10, as amended (a conditioned endpoint): \<open>are_d_separated\<close> has no check that the
  conditions leave \<open>a\<close> and \<open>b\<close> out. A call with a wrapper graph and Variables, the
  conditions given as a collection, in which \<open>a\<close> or \<open>b\<close> is among the conditions
  raises and never returns a judgement. When \<open>a\<close>, \<open>b\<close> and the conditions are nodes of
  the graph, the ancestor query succeeds and the exception is the \<open>NodeNotFound\<close> of the
  final path check, whose graph no longer has the conditioned endpoint. When one of them
  is not a node of the graph, the exception is the \<open>KeyError\<close> of the ancestor query on
  line 169, and the path check is not reached (the counterexample below).
\<close>

theorem conditioned_endpoint_raises:
  assumes "a \<in> set C \<or> b \<in> set C"
  shows "(\<exists>e. are_d_separated (Wrapper G) (Var a) (Var b) (Some (map Var C)) = Inl e) \<and>
         (a \<in> set (nodes G) \<and> b \<in> set (nodes G) \<and> set C \<subseteq> set (nodes G) \<longrightarrow>
            ancestors (to_admg G) ([name a, name b] @ map name C) \<noteq> Inl KeyError \<and>
            are_d_separated (Wrapper G) (Var a) (Var b) (Some (map Var C)) = Inl NodeNotFound) \<and>
         (\<not> (a \<in> set (nodes G) \<and> b \<in> set (nodes G) \<and> set C \<subseteq> set (nodes G)) \<longrightarrow>
            ancestors (to_admg G) ([name a, name b] @ map name C) = Inl KeyError \<and>
            are_d_separated (Wrapper G) (Var a) (Var b) (Some (map Var C)) = Inl KeyError)"
proof (intro conjI impI)
  have named: "set ([name a, name b] @ map name C) \<subseteq> set (map name (nodes G)) \<longleftrightarrow>
      a \<in> set (nodes G) \<and> b \<in> set (nodes G) \<and> set C \<subseteq> set (nodes G)"
    using inj_image_mem_iff [OF inj_name] inj_image_subset_iff [OF inj_name]
    by simp
  show "\<exists>e. are_d_separated (Wrapper G) (Var a) (Var b) (Some (map Var C)) = Inl e"
    by (simp add: are_d_separated_Var separation_conditioned_endpoint [OF assms])
  {
    assume "a \<in> set (nodes G) \<and> b \<in> set (nodes G) \<and> set C \<subseteq> set (nodes G)"
    with named have s: "set ([name a, name b] @ map name C) \<subseteq> set (map name (nodes G))"
      by blast
    then show "ancestors (to_admg G) ([name a, name b] @ map name C) \<noteq> Inl KeyError"
      by (simp add: ancestors_def to_admg_def)
    from s show "are_d_separated (Wrapper G) (Var a) (Var b) (Some (map Var C)) = Inl NodeNotFound"
      by (simp add: are_d_separated_Var separation_conditioned_endpoint [OF assms])
  }
  {
    assume "\<not> (a \<in> set (nodes G) \<and> b \<in> set (nodes G) \<and> set C \<subseteq> set (nodes G))"
    with named have s: "\<not> set ([name a, name b] @ map name C) \<subseteq> set (map name (nodes G))"
      by blast
    then show "ancestors (to_admg G) ([name a, name b] @ map name C) = Inl KeyError"
      by (simp add: ancestors_def to_admg_def)
    from s show "are_d_separated (Wrapper G) (Var a) (Var b) (Some (map Var C)) = Inl KeyError"
      by (simp add: are_d_separated_Var separation_conditioned_endpoint [OF assms])
  }
qed

theorem conditioned_endpoint_raises_witness:
  "are_d_separated (Wrapper collider) (Var vA) (Var vC) (Some (map Var [vC])) = Inl NodeNotFound"
proof -
  have "vA \<in> set [vC] \<or> vC \<in> set [vC]"
    by simp
  from conditioned_endpoint_raises [OF this, of collider] show ?thesis
    by (simp add: nodes_collider)
qed

lemma ancestors_foreign:
  "ancestors (to_admg collider) ([name vA, name vZ] @ map name [vZ]) = Inl KeyError"
  by code_simp

lemma are_d_separated_foreign:
  "are_d_separated (Wrapper collider) (Var vA) (Var vZ) (Some (map Var [vZ])) = Inl KeyError"
  by code_simp

theorem conditioned_endpoint_raises_counterexample:
  "vZ \<in> set [vZ] \<and>
   ancestors (to_admg collider) ([name vA, name vZ] @ map name [vZ]) = Inl KeyError \<and>
   are_d_separated (Wrapper collider) (Var vA) (Var vZ) (Some (map Var [vZ])) = Inl KeyError \<and>
   are_d_separated (Wrapper collider) (Var vA) (Var vZ) (Some (map Var [vZ])) \<noteq> Inl NodeNotFound"
  using ancestors_foreign are_d_separated_foreign by simp

section \<open>Claims about the checks and the store\<close>

text \<open>
  C8, as amended (the type error): for a wrapper graph, \<open>are_d_separated\<close> raises
  \<open>TypeError\<close> exactly when \<open>a\<close>, \<open>b\<close> or an element of \<open>conditions\<close> is not a Variable,
  and it does so before any graph is converted or built: the store is left as it was.
  For an ananke graph the guard in front of the type checks raises \<open>NoAnankeError\<close>
  whatever \<open>a\<close>, \<open>b\<close> and the conditions are, so the claim's "if and only if" does not
  hold there (the counterexample below).
\<close>

theorem type_error_before_any_transformation:
  "(lookup h graph = Some (NxMixedGraphObj g) \<longrightarrow>
      (are_d_separated (Wrapper g) a b conds = Inl TypeError \<longleftrightarrow>
         \<not> isinstance_Variable a \<or> \<not> isinstance_Variable b \<or>
         (\<exists>c \<in> set (case conds of None \<Rightarrow> [] | Some cs \<Rightarrow> cs). \<not> isinstance_Variable c)) \<and>
      fst (are_d_separated_st h graph a b conds) = are_d_separated (Wrapper g) a b conds \<and>
      (are_d_separated (Wrapper g) a b conds = Inl TypeError \<longrightarrow>
         are_d_separated_st h graph a b conds = (Inl TypeError, h))) \<and>
   (lookup h graph = Some (ADMGObj x) \<longrightarrow>
      are_d_separated (Ananke x) a b conds = Inl NoAnankeError \<and>
      are_d_separated_st h graph a b conds = (Inl NoAnankeError, h))"
proof (intro conjI impI)
  show "are_d_separated (Ananke x) a b conds = Inl NoAnankeError"
    by (simp add: are_d_separated_def)
  assume "lookup h graph = Some (ADMGObj x)"
  then show "are_d_separated_st h graph a b conds = (Inl NoAnankeError, h)"
    by (simp add: are_d_separated_st_def)
next
  assume g: "lookup h graph = Some (NxMixedGraphObj g)"
  let ?bad = "\<not> isinstance_Variable a \<or> \<not> isinstance_Variable b \<or>
      (\<exists>c \<in> set (case conds of None \<Rightarrow> [] | Some cs \<Rightarrow> cs). \<not> isinstance_Variable c)"
  have no: "separation g u v cs \<noteq> Inl TypeError" for u v cs
    using separation_errors [of g u v cs TypeError] by auto
  show iff: "are_d_separated (Wrapper g) a b conds = Inl TypeError \<longleftrightarrow> ?bad"
    using no by (auto simp: are_d_separated_def Let_def list_all_iff)
  show "fst (are_d_separated_st h graph a b conds) = are_d_separated (Wrapper g) a b conds"
    using g by (rule are_d_separated_st_fst)
  assume "are_d_separated (Wrapper g) a b conds = Inl TypeError"
  with iff have ?bad by simp
  then show "are_d_separated_st h graph a b conds = (Inl TypeError, h)"
    using g by (auto simp: are_d_separated_st_def Let_def list_all_iff)
qed

theorem type_error_before_any_transformation_witness:
  "are_d_separated (Wrapper collider) (Var vA) (Str ''B'') None = Inl TypeError \<and>
   are_d_separated_st [NxMixedGraphObj collider] 0 (Var vA) (Str ''B'') None
     = (Inl TypeError, [NxMixedGraphObj collider]) \<and>
   are_d_separated_st [ADMGObj empty_admg] 0 (Var vA) (Str ''B'') None
     = (Inl NoAnankeError, [ADMGObj empty_admg])"
proof -
  have "lookup [NxMixedGraphObj collider] 0 = Some (NxMixedGraphObj collider)"
    "lookup [ADMGObj empty_admg] 0 = Some (ADMGObj empty_admg)"
    by (simp_all add: lookup_def)
  with type_error_before_any_transformation
         [of "[NxMixedGraphObj collider]" 0 collider "Var vA" "Str ''B''" None]
       type_error_before_any_transformation
         [of "[ADMGObj empty_admg]" 0 _ "Var vA" "Str ''B''" None empty_admg]
  show ?thesis
    by simp
qed

theorem type_error_iff_counterexample:
  "\<not> isinstance_Variable (Str ''A'') \<and>
   are_d_separated (Ananke empty_admg) (Str ''A'') (Var vB) None = Inl NoAnankeError \<and>
   are_d_separated (Ananke empty_admg) (Str ''A'') (Var vB) None \<noteq> Inl TypeError"
  by (simp add: are_d_separated_def)

text \<open>
  C9 (the input graph is not changed): when a call of \<open>are_d_separated\<close> returns a
  judgement, the object that \<open>graph\<close> refers to, and every other object that existed
  before the call, is the same afterwards; the ancestral restriction, the moral links and
  the disorientation work on objects that the call has made itself. The judgement is the
  one of the function without a store.
\<close>

theorem are_d_separated_leaves_graph:
  assumes "are_d_separated_st h graph a b conds = (Inr j, h')"
  shows "lookup h' graph = lookup h graph \<and>
         (\<forall>r < length h. h' ! r = h ! r) \<and> length h \<le> length h' \<and>
         (\<exists>g. lookup h graph = Some (NxMixedGraphObj g) \<and>
              are_d_separated (Wrapper g) a b conds = Inr j)"
proof -
  from are_d_separated_st_extends [of h graph a b conds] assms obtain new
    where new: "h' = h @ new"
    by auto
  have g: "\<exists>g. lookup h graph = Some (NxMixedGraphObj g)"
    using assms
    by (auto simp: are_d_separated_st_def Let_def split: option.splits obj.splits if_splits)
  then obtain g where gg: "lookup h graph = Some (NxMixedGraphObj g)"
    by blast
  then have "graph < length h"
    by (simp add: lookup_def split: if_splits)
  with new have "lookup h' graph = lookup h graph"
    by (simp add: lookup_def nth_append)
  moreover from new have "\<forall>r < length h. h' ! r = h ! r" "length h \<le> length h'"
    by (simp_all add: nth_append)
  moreover from are_d_separated_st_fst [OF gg, of a b conds] assms
  have "are_d_separated (Wrapper g) a b conds = Inr j"
    by simp
  ultimately show ?thesis
    using gg by blast
qed

theorem are_d_separated_leaves_graph_witness:
  "fst (are_d_separated_st [NxMixedGraphObj collider] 0 (Var vA) (Var vB) (Some [Var vC]))
     = Inr \<lparr>separated = False, left = vA, right = vB, conditions = [vC]\<rparr> \<and>
   lookup (snd (are_d_separated_st [NxMixedGraphObj collider] 0 (Var vA) (Var vB) (Some [Var vC]))) 0
     = Some (NxMixedGraphObj collider)"
proof -
  let ?call = "are_d_separated_st [NxMixedGraphObj collider] 0 (Var vA) (Var vB) (Some [Var vC])"
  have "are_d_separated (Wrapper collider) (Var vA) (Var vB) (Some [Var vC])
      = Inr \<lparr>separated = False, left = vA, right = vB, conditions = [vC]\<rparr>"
    by code_simp
  with are_d_separated_st_fst [of "[NxMixedGraphObj collider]" 0 collider "Var vA" "Var vB"
      "Some [Var vC]"]
  have v: "fst ?call = Inr \<lparr>separated = False, left = vA, right = vB, conditions = [vC]\<rparr>"
    by (simp add: lookup_def)
  then have "?call = (Inr \<lparr>separated = False, left = vA, right = vB, conditions = [vC]\<rparr>, snd ?call)"
    by (metis prod.collapse)
  from are_d_separated_leaves_graph [OF this] v show ?thesis
    by (simp add: lookup_def)
qed

section \<open>Claims about minimal\<close>

lemma minimal_three: "minimal three_judgements len_lex
    = Inr (set [create vA vB [] True, create vA vC [vB] True])"
  by code_simp

text \<open>
  C3 (minimal-cover selection): for every list of judgements and every policy with
  totally ordered keys, \<open>minimal\<close> returns a set of judgements of the input that has
  exactly one judgement for each (left, right) pair of the input (and so none for any
  other pair); the one it keeps has the least policy key among the judgements of its
  pair. Without a policy the key is the number of conditions and then the names of the
  conditions joined by commas.
\<close>

theorem minimal_one_per_pair:
  fixes policy :: "DSeparationJudgement \<Rightarrow> 'k::linorder"
  shows "(\<exists>M. minimal js policy = Inr M \<and> M \<subseteq> set js \<and>
            (\<forall>j \<in> set js. \<exists>!m. m \<in> M \<and> judgement_grouper m = judgement_grouper j) \<and>
            (\<forall>m \<in> M. \<forall>j \<in> set js. judgement_grouper j = judgement_grouper m
                 \<longrightarrow> policy m \<le> policy j)) \<and>
         (\<exists>M. minimal_default js = Inr M \<and> M \<subseteq> set js \<and>
            (\<forall>j \<in> set js. \<exists>!m. m \<in> M \<and> judgement_grouper m = judgement_grouper j) \<and>
            (\<forall>m \<in> M. \<forall>j \<in> set js. judgement_grouper j = judgement_grouper m
                 \<longrightarrow> length (conditions m) < length (conditions j) \<or>
                     length (conditions m) = length (conditions j) \<and>
                     join '','' (map name (conditions m)) \<le> join '','' (map name (conditions j))))"
proof
  show "\<exists>M. minimal js policy = Inr M \<and> M \<subseteq> set js \<and>
            (\<forall>j \<in> set js. \<exists>!m. m \<in> M \<and> judgement_grouper m = judgement_grouper j) \<and>
            (\<forall>m \<in> M. \<forall>j \<in> set js. judgement_grouper j = judgement_grouper m
                 \<longrightarrow> policy m \<le> policy j)"
    by (rule minimal_properties)
next
  from minimal_properties [of js len_lex] obtain M
    where M: "minimal js len_lex = Inr M" "M \<subseteq> set js"
      "\<forall>j \<in> set js. \<exists>!m. m \<in> M \<and> judgement_grouper m = judgement_grouper j"
      "\<forall>m \<in> M. \<forall>j \<in> set js. judgement_grouper j = judgement_grouper m \<longrightarrow> len_lex m \<le> len_lex j"
    by blast
  have "length (conditions m) < length (conditions j) \<or>
      length (conditions m) = length (conditions j) \<and>
      join '','' (map name (conditions m)) \<le> join '','' (map name (conditions j))"
    if "len_lex m \<le> len_lex j" for m j
    using that by (auto simp: len_lex_def less_eq_prod_def)
  with M(4) have "\<forall>m \<in> M. \<forall>j \<in> set js. judgement_grouper j = judgement_grouper m
      \<longrightarrow> length (conditions m) < length (conditions j) \<or>
          length (conditions m) = length (conditions j) \<and>
          join '','' (map name (conditions m)) \<le> join '','' (map name (conditions j))"
    by blast
  with M(1-3) show "\<exists>M. minimal_default js = Inr M \<and> M \<subseteq> set js \<and>
            (\<forall>j \<in> set js. \<exists>!m. m \<in> M \<and> judgement_grouper m = judgement_grouper j) \<and>
            (\<forall>m \<in> M. \<forall>j \<in> set js. judgement_grouper j = judgement_grouper m
                 \<longrightarrow> length (conditions m) < length (conditions j) \<or>
                     length (conditions m) = length (conditions j) \<and>
                     join '','' (map name (conditions m)) \<le> join '','' (map name (conditions j)))"
    unfolding minimal_default_def by (intro exI [of _ M] conjI)
qed

theorem minimal_one_per_pair_witness:
  "minimal_default three_judgements = Inr {create vA vB [] True, create vA vC [vB] True} \<and>
   (\<exists>!m. m \<in> {create vA vB [] True, create vA vC [vB] True} \<and>
      judgement_grouper m = judgement_grouper (create vA vB [vC] True)) \<and>
   len_lex (create vA vB [] True) \<le> len_lex (create vA vB [vC] True)"
proof -
  let ?M = "{create vA vB [] True, create vA vC [vB] True}"
  have v: "minimal three_judgements len_lex = Inr ?M"
    using minimal_three by simp
  from minimal_one_per_pair [of three_judgements len_lex] obtain M
    where M: "minimal three_judgements len_lex = Inr M"
      "\<forall>j \<in> set three_judgements. \<exists>!m. m \<in> M \<and> judgement_grouper m = judgement_grouper j"
      "\<forall>m \<in> M. \<forall>j \<in> set three_judgements. judgement_grouper j = judgement_grouper m
          \<longrightarrow> len_lex m \<le> len_lex j"
    by blast
  from M(1) v have eq: "M = ?M"
    by simp
  have j: "create vA vB [vC] True \<in> set three_judgements"
    by (simp add: three_judgements_def)
  have g: "judgement_grouper (create vA vB [vC] True) = judgement_grouper (create vA vB [] True)"
    by (simp add: judgement_grouper_def create_def)
  from M(2) j eq have "\<exists>!m. m \<in> ?M \<and> judgement_grouper m = judgement_grouper (create vA vB [vC] True)"
    by blast
  moreover from M(3) eq j g have "len_lex (create vA vB [] True) \<le> len_lex (create vA vB [vC] True)"
    by blast
  ultimately show ?thesis
    using v by (simp add: minimal_default_def)
qed

section \<open>Claims about the topological policy\<close>




text \<open>
  C7, as amended (the key of the topological policy): for a wrapper graph without a
  directed cycle, \<open>get_topological_policy\<close> returns a policy built on a topological
  order of the nodes (each node once, every directed edge from an earlier to a later
  node). For a judgement whose condition variables are nodes of the graph the key is the
  number of conditions paired with the sum of the positions of the condition variables
  in that order. For a judgement with a condition variable that is not a node of the
  graph \<open>order.index\<close> raises \<open>ValueError\<close> and there is no key.
\<close>

theorem topological_policy_key:
  assumes "acyclic (set (directed g))"
  shows "\<exists>order policy.
      topological_sort g = Inr order \<and> get_topological_policy (Wrapper g) = Inr policy \<and>
      distinct order \<and> set order = set (nodes g) \<and>
      (\<forall>e \<in> set (directed g). \<exists>ys zs. order = ys @ zs \<and> fst e \<in> set ys \<and> snd e \<in> set zs) \<and>
      (\<forall>j. set (conditions j) \<subseteq> set (nodes g) \<longrightarrow>
         (\<exists>ixs. length ixs = length (conditions j) \<and>
            (\<forall>k < length ixs. ixs ! k < length order \<and> order ! (ixs ! k) = conditions j ! k) \<and>
            policy j = Inr (length (conditions j), sum_list ixs))) \<and>
      (\<forall>j. \<not> set (conditions j) \<subseteq> set (nodes g) \<longrightarrow> policy j = Inl ValueError)"
proof -
  from topological_sort_acyclic [OF assms] obtain order
    where o: "topological_sort g = Inr order" "distinct order" "set order = set (nodes g)"
      "\<forall>e \<in> set (directed g). \<exists>ys zs. order = ys @ zs \<and> fst e \<in> set ys \<and> snd e \<in> set zs"
    by blast
  let ?policy = "\<lambda>judgement. topological_policy judgement order"
  have p: "get_topological_policy (Wrapper g) = Inr ?policy"
    using o(1) by (simp add: get_topological_policy_def)
  have inside: "\<exists>ixs. length ixs = length (conditions j) \<and>
      (\<forall>k < length ixs. ixs ! k < length order \<and> order ! (ixs ! k) = conditions j ! k) \<and>
      ?policy j = Inr (length (conditions j), sum_list ixs)"
    if "set (conditions j) \<subseteq> set (nodes g)" for j
  proof -
    from that o(3) have "set (conditions j) \<subseteq> set order"
      by simp
    from collect_indices [OF this] obtain ixs
      where "collect (map (index order) (conditions j)) = Inr ixs" "length ixs = length (conditions j)"
        "\<forall>k < length ixs. ixs ! k < length order \<and> order ! (ixs ! k) = conditions j ! k"
      by blast
    then show ?thesis
      by (intro exI [of _ ixs]) (simp add: topological_policy_def)
  qed
  have outside: "?policy j = Inl ValueError" if "\<not> set (conditions j) \<subseteq> set (nodes g)" for j
    using that o(3) collect_indices_error [of "conditions j" order]
    by (simp add: topological_policy_def)
  have all_inside: "\<forall>j. set (conditions j) \<subseteq> set (nodes g) \<longrightarrow>
         (\<exists>ixs. length ixs = length (conditions j) \<and>
            (\<forall>k < length ixs. ixs ! k < length order \<and> order ! (ixs ! k) = conditions j ! k) \<and>
            ?policy j = Inr (length (conditions j), sum_list ixs))"
    using inside by blast
  have all_outside: "\<forall>j. \<not> set (conditions j) \<subseteq> set (nodes g) \<longrightarrow> ?policy j = Inl ValueError"
    using outside by blast
  show ?thesis
    by (rule exI [of _ order], rule exI [of _ ?policy], intro conjI)
      (fact o p all_inside all_outside)+
qed

theorem topological_policy_key_witness:
  "acyclic (set (directed chain)) \<and>
   (\<exists>order policy. topological_sort chain = Inr order \<and>
      get_topological_policy (Wrapper chain) = Inr policy \<and> order = [vA, vC, vB] \<and>
      policy (create vA vB [vC] True) = Inr (1, 1))"
proof -
  from topological_policy_key [OF acyclic_chain] obtain order policy
    where o: "topological_sort chain = Inr order" "get_topological_policy (Wrapper chain) = Inr policy"
    by blast
  from o(1) have order: "order = [vA, vC, vB]"
    by (simp add: topological_sort_chain)
  from o(2) have "policy = (\<lambda>judgement. topological_policy judgement [vA, vC, vB])"
    by (simp add: get_topological_policy_def topological_sort_chain)
  then have "policy (create vA vB [vC] True) = Inr (1, 1)"
    by (simp add: policy_chain)
  with o order acyclic_chain show ?thesis
    by blast
qed

theorem topological_policy_key_counterexample:
  "topological_sort chain = Inr [vA, vC, vB] \<and>
   (case get_topological_policy (Wrapper chain) of
      Inl e \<Rightarrow> False
    | Inr policy \<Rightarrow> policy foreign_judgement = Inl ValueError)"
  by (simp add: get_topological_policy_def topological_sort_chain policy_foreign)

section \<open>Claims about d_separations\<close>



text \<open>
  C6 (the first hit): without \<open>return_all\<close>, \<open>d_separations\<close> yields at most one
  judgement for each unordered pair of nodes. A judgement it yields has
  \<open>separated = True\<close> and is the first such judgement in the order in which the condition
  sets of its pair are tried (every earlier condition set gives a judgement with
  \<open>separated = False\<close>); no separating set of nodes other than the pair has fewer
  conditions. A pair with a separating set among those tried has a judgement. With
  \<open>return_all\<close>, what is yielded is every judgement with \<open>separated = True\<close> of every
  pair and every condition set tried, that is of every size up to \<open>max_conditions\<close>.
  Neither run raises.
\<close>

theorem first_hit_is_minimal:
  "raised (d_separations (Wrapper g) mc False) = None \<and>
   raised (d_separations (Wrapper g) mc True) = None \<and>
   (\<forall>a b. length (filter (\<lambda>j. {left j, right j} = {a, b})
                    (yielded (d_separations (Wrapper g) mc False))) \<le> 1) \<and>
   (\<forall>j \<in> set (yielded (d_separations (Wrapper g) mc False)).
      separated j \<and>
      (\<exists>(a, b) \<in> set (pairs (nodes g)). \<exists>i < length (powerset (others (nodes g) a b) mc).
         are_d_separated (Wrapper g) (Var a) (Var b)
           (Some (map Var (powerset (others (nodes g) a b) mc ! i))) = Inr j \<and>
         (\<forall>k < i. \<forall>j'. are_d_separated (Wrapper g) (Var a) (Var b)
              (Some (map Var (powerset (others (nodes g) a b) mc ! k))) = Inr j'
            \<longrightarrow> \<not> separated j')) \<and>
      (\<forall>cs j'. set cs \<subseteq> set (nodes g) - {left j, right j} \<and>
          are_d_separated (Wrapper g) (Var (left j)) (Var (right j)) (Some (map Var cs)) = Inr j' \<and>
          separated j'
        \<longrightarrow> length (conditions j) \<le> length (conditions j'))) \<and>
   (\<forall>(a, b) \<in> set (pairs (nodes g)). \<forall>cs \<in> set (powerset (others (nodes g) a b) mc). \<forall>j'.
      are_d_separated (Wrapper g) (Var a) (Var b) (Some (map Var cs)) = Inr j' \<and> separated j'
      \<longrightarrow> (\<exists>j \<in> set (yielded (d_separations (Wrapper g) mc False)). {left j, right j} = {a, b})) \<and>
   set (yielded (d_separations (Wrapper g) mc True)) =
     {j. separated j \<and>
         (\<exists>(a, b) \<in> set (pairs (nodes g)). \<exists>cs \<in> set (powerset (others (nodes g) a b) mc).
            are_d_separated (Wrapper g) (Var a) (Var b) (Some (map Var cs)) = Inr j)}"
proof (intro conjI)
  let ?Y = "yielded (d_separations (Wrapper g) mc False)"
  let ?ps = "pairs (nodes g)"
  let ?cand = "\<lambda>a b. powerset (others (nodes g) a b) mc"
  let ?call = "\<lambda>a b cs. are_d_separated (Wrapper g) (Var a) (Var b) (Some (map Var cs))"
  have Y: "?Y = concat (map (first_hit g mc) ?ps)"
    by (rule yielded_first)
  have total: "\<exists>p. separation g a b cs = Inr (create a b cs p)"
    if "(a, b) \<in> set ?ps" "cs \<in> set (?cand a b)" for a b cs
    using that by (rule candidates_total)
  have sep_iff: "separating g a b cs \<longleftrightarrow> (\<exists>j. ?call a b cs = Inr j \<and> separated j)"
    if "(a, b) \<in> set ?ps" "cs \<in> set (?cand a b)" for a b cs
    using total [OF that] by (rule separating_iff)
  show "raised (d_separations (Wrapper g) mc False) = None"
    using d_separations_runs [of g mc False] by blast
  show "raised (d_separations (Wrapper g) mc True) = None"
    using d_separations_runs [of g mc True] by blast
  show "\<forall>a b. length (filter (\<lambda>j. {left j, right j} = {a, b}) ?Y) \<le> 1"
  proof (intro allI)
    fix a b
    have "\<forall>p \<in> set ?ps. length (first_hit g mc p) \<le> 1 \<and>
        (\<forall>j \<in> set (first_hit g mc p). {left j, right j} = (\<lambda>(a, b). {a, b}) p)"
      by (auto simp: first_hit_def pair_create split: option.splits)
    from filter_concat_at_most_one [OF pairs_unordered_distinct [OF distinct_nodes] this]
    show "length (filter (\<lambda>j. {left j, right j} = {a, b}) ?Y) \<le> 1"
      unfolding Y .
  qed
  have origin: "\<exists>a b cs0. (a, b) \<in> set ?ps \<and> List.find (separating g a b) (?cand a b) = Some cs0 \<and>
      j = create a b cs0 True" if "j \<in> set ?Y" for j
  proof -
    from that obtain p where p: "p \<in> set ?ps" "j \<in> set (first_hit g mc p)"
      unfolding Y by auto
    obtain a b where ab: "p = (a, b)" by (cases p)
    show ?thesis
    proof (cases "List.find (separating g a b) (?cand a b)")
      case None
      with p(2) ab show ?thesis
        by (simp add: first_hit_def)
    next
      case (Some cs0)
      with p(2) ab have "j = create a b cs0 True"
        by (simp add: first_hit_def)
      with Some p(1) ab show ?thesis by blast
    qed
  qed
  show "\<forall>j \<in> set ?Y.
      separated j \<and>
      (\<exists>(a, b) \<in> set ?ps. \<exists>i < length (?cand a b).
         ?call a b (?cand a b ! i) = Inr j \<and>
         (\<forall>k < i. \<forall>j'. ?call a b (?cand a b ! k) = Inr j' \<longrightarrow> \<not> separated j')) \<and>
      (\<forall>cs j'. set cs \<subseteq> set (nodes g) - {left j, right j} \<and>
          ?call (left j) (right j) cs = Inr j' \<and> separated j'
        \<longrightarrow> length (conditions j) \<le> length (conditions j'))"
  proof (intro ballI conjI)
    fix j assume "j \<in> set ?Y"
    from origin [OF this] obtain a b cs0
      where ab: "(a, b) \<in> set ?ps" and f: "List.find (separating g a b) (?cand a b) = Some cs0"
        and j: "j = create a b cs0 True"
      by blast
    show "separated j"
      by (simp add: j separated_create)
    from f obtain i where i: "i < length (?cand a b)" "separating g a b (?cand a b ! i)"
      "cs0 = ?cand a b ! i" "\<forall>k < i. \<not> separating g a b (?cand a b ! k)"
      unfolding find_Some_iff by blast
    have "?call a b (?cand a b ! i) = Inr j"
      using separating_judgement [OF i(2)] i(3) j by simp
    moreover have "\<forall>k < i. \<forall>j'. ?call a b (?cand a b ! k) = Inr j' \<longrightarrow> \<not> separated j'"
    proof (intro allI impI)
      fix k j' assume k: "k < i" and c: "?call a b (?cand a b ! k) = Inr j'"
      from k i(1) have "?cand a b ! k \<in> set (?cand a b)"
        by simp
      from sep_iff [OF ab this] i(4) k c show "\<not> separated j'"
        by auto
    qed
    ultimately show "\<exists>(a, b) \<in> set ?ps. \<exists>i < length (?cand a b).
         ?call a b (?cand a b ! i) = Inr j \<and>
         (\<forall>k < i. \<forall>j'. ?call a b (?cand a b ! k) = Inr j' \<longrightarrow> \<not> separated j')"
      using ab i(1) by blast
    show "\<forall>cs j'. set cs \<subseteq> set (nodes g) - {left j, right j} \<and>
          ?call (left j) (right j) cs = Inr j' \<and> separated j'
        \<longrightarrow> length (conditions j) \<le> length (conditions j')"
    proof (intro allI impI, elim conjE)
      fix cs j'
      assume sub: "set cs \<subseteq> set (nodes g) - {left j, right j}"
        and c: "?call (left j) (right j) cs = Inr j'" and s: "separated j'"
      have lr: "{left j, right j} = {a, b}"
        by (simp add: j pair_create)
      then have "(left j = a \<and> right j = b) \<or> (left j = b \<and> right j = a)"
        by (auto simp: doubleton_eq_iff)
      moreover from c have "separation g (left j) (right j) cs = Inr j'"
        by (simp add: are_d_separated_Var)
      ultimately have c': "separation g a b cs = Inr j'"
        using separation_swap [of g a b cs] by auto
      from sub lr have sub': "set cs \<subseteq> set (nodes g) - {a, b}"
        by simp
      with pairs_members [OF ab] have "\<exists>p. separation g a b cs = Inr (create a b cs p)"
        by (intro separation_total) auto
      with c' s have j': "j' = create a b cs True"
        by (auto simp: separated_create)
      with c' have "separating g a b cs"
        by (simp add: separating_def)
      from first_hit_minimal [OF f sub' this] show "length (conditions j) \<le> length (conditions j')"
        by (simp add: j j' length_conditions_create)
    qed
  qed
  show "\<forall>(a, b) \<in> set ?ps. \<forall>cs \<in> set (?cand a b). \<forall>j'.
      ?call a b cs = Inr j' \<and> separated j' \<longrightarrow> (\<exists>j \<in> set ?Y. {left j, right j} = {a, b})"
  proof (intro ballI allI impI, clarify)
    fix a b cs j'
    assume ab: "(a, b) \<in> set ?ps" and cs: "cs \<in> set (?cand a b)"
      and c: "?call a b cs = Inr j'" "separated j'"
    from sep_iff [OF ab cs] c have "separating g a b cs"
      by blast
    with cs obtain cs0 where "List.find (separating g a b) (?cand a b) = Some cs0"
      by (cases "List.find (separating g a b) (?cand a b)") (auto simp: find_None_iff)
    then have "first_hit g mc (a, b) = [create a b cs0 True]"
      by (simp add: first_hit_def)
    with ab have "create a b cs0 True \<in> set ?Y"
      unfolding Y by force
    then show "\<exists>j \<in> set ?Y. {left j, right j} = {a, b}"
      using pair_create [of a b cs0 True] by blast
  qed
  show "set (yielded (d_separations (Wrapper g) mc True)) =
     {j. separated j \<and>
         (\<exists>(a, b) \<in> set ?ps. \<exists>cs \<in> set (?cand a b). ?call a b cs = Inr j)}"
  proof (intro set_eqI iffI)
    fix j assume "j \<in> set (yielded (d_separations (Wrapper g) mc True))"
    then obtain a b cs where abc: "(a, b) \<in> set ?ps" "cs \<in> set (?cand a b)" "separating g a b cs"
      "j = create a b cs True"
      unfolding yielded_all by auto
    from separating_judgement [OF abc(3)] abc
    show "j \<in> {j. separated j \<and> (\<exists>(a, b) \<in> set ?ps. \<exists>cs \<in> set (?cand a b). ?call a b cs = Inr j)}"
      by (auto simp: separated_create)
  next
    fix j
    assume "j \<in> {j. separated j \<and> (\<exists>(a, b) \<in> set ?ps. \<exists>cs \<in> set (?cand a b). ?call a b cs = Inr j)}"
    then obtain a b cs where abc: "(a, b) \<in> set ?ps" "cs \<in> set (?cand a b)" "?call a b cs = Inr j"
      "separated j"
      by auto
    from sep_iff [OF abc(1,2)] abc(3,4) have s: "separating g a b cs"
      by blast
    from separating_judgement [OF this] abc(3) have "j = create a b cs True"
      by simp
    with abc(1,2) s show "j \<in> set (yielded (d_separations (Wrapper g) mc True))"
      unfolding yielded_all by force
  qed
qed

theorem first_hit_is_minimal_witness:
  "yielded (d_separations (Wrapper chain) None False) = [create vA vB [vC] True] \<and>
   raised (d_separations (Wrapper chain) None False) = None \<and>
   length (filter (\<lambda>j. {left j, right j} = {vA, vB})
      (yielded (d_separations (Wrapper chain) None False))) \<le> 1 \<and>
   separated (create vA vB [vC] True)"
  using first_hit_is_minimal [of chain None]
  by (simp add: yielded_chain)

end
